theory Spec2Isabelle
  imports Main "HOL-Library.AList"
begin

section \<open>JavaScript strings\<close>

text \<open>
  A JavaScript string is a sequence of UTF-16 code units. The model keeps a string as the
  list of its code units, each a natural number, so that \<open>length\<close> is the \<^verbatim>\<open>.length\<close> of the
  source and the non-ASCII literals of the source are lists of their code points
  (all of them are in the Basic Multilingual Plane). \<open>asc\<close> turns an ASCII literal
  into such a list.
\<close>

type_synonym jsstring = "nat list"

definition asc :: "string \<Rightarrow> jsstring" where
  "asc s = map of_char s"

text \<open>
  White space and line terminators of ECMAScript: what \<^verbatim>\<open>\s\<close> matches and what
  \<^verbatim>\<open>trim()\<close> removes (TAB, LF, VT, FF, CR, SP, NBSP, U+1680, U+2000..U+200A, U+2028, U+2029,
  U+202F, U+205F, U+3000, U+FEFF).
\<close>

definition isWhiteSpace :: "nat \<Rightarrow> bool" where
  "isWhiteSpace c =
     (c = 9 \<or> c = 10 \<or> c = 11 \<or> c = 12 \<or> c = 13 \<or> c = 32 \<or> c = 160 \<or> c = 5760 \<or>
      (8192 \<le> c \<and> c \<le> 8202) \<or> c = 8232 \<or> c = 8233 \<or> c = 8239 \<or> c = 8287 \<or>
      c = 12288 \<or> c = 65279)"

text \<open>Line terminators (LF, CR, U+2028, U+2029): what \<^verbatim>\<open>.\<close> does not match.\<close>

definition isLineTerminator :: "nat \<Rightarrow> bool" where
  "isLineTerminator c = (c = 10 \<or> c = 13 \<or> c = 8232 \<or> c = 8233)"

definition isDigit :: "nat \<Rightarrow> bool" where
  "isDigit c = (48 \<le> c \<and> c \<le> 57)"

definition trimStart :: "jsstring \<Rightarrow> jsstring" where
  "trimStart s = dropWhile isWhiteSpace s"

definition trimEnd :: "jsstring \<Rightarrow> jsstring" where
  "trimEnd s = rev (dropWhile isWhiteSpace (rev s))"

definition trim :: "jsstring \<Rightarrow> jsstring" where
  "trim s = trimEnd (trimStart s)"

definition startsWith :: "jsstring \<Rightarrow> jsstring \<Rightarrow> bool" where
  "startsWith s p = (take (length p) s = p)"

fun includesStr :: "jsstring \<Rightarrow> jsstring \<Rightarrow> bool" where
  "includesStr [] p = (p = [])"
| "includesStr (c # cs) p = (startsWith (c # cs) p \<or> includesStr cs p)"

text \<open>\<^verbatim>\<open>s.indexOf(p)\<close>; the source's \<^verbatim>\<open>-1\<close> is \<open>None\<close>. The first argument counts the
  code units already passed.\<close>

fun indexOfFrom :: "nat \<Rightarrow> jsstring \<Rightarrow> jsstring \<Rightarrow> nat option" where
  "indexOfFrom i [] p = (if p = [] then Some i else None)"
| "indexOfFrom i (c # cs) p =
     (if startsWith (c # cs) p then Some i else indexOfFrom (Suc i) cs p)"

definition indexOf :: "jsstring \<Rightarrow> jsstring \<Rightarrow> nat option" where
  "indexOf s p = indexOfFrom 0 s p"

text \<open>\<^verbatim>\<open>s.split(d)\<close> for a one-unit separator, and \<^verbatim>\<open>xs.join(d)\<close>.\<close>

fun splitOn :: "nat \<Rightarrow> jsstring \<Rightarrow> jsstring list" where
  "splitOn d [] = [[]]"
| "splitOn d (c # cs) =
     (if c = d then [] # splitOn d cs
      else (case splitOn d cs of [] \<Rightarrow> [[c]] | x # xs \<Rightarrow> (c # x) # xs))"

fun joinWith :: "nat \<Rightarrow> jsstring list \<Rightarrow> jsstring" where
  "joinWith d [] = []"
| "joinWith d [x] = x"
| "joinWith d (x # y # ys) = x @ d # joinWith d (y # ys)"

section \<open>JavaScript numbers\<close>

text \<open>
  A JavaScript number is an IEEE 754 double. The numbers of this program are read from
  digits by \<^verbatim>\<open>parseInt\<close>, or are counts and offsets, and are combined by \<^verbatim>\<open>+\<close>, \<^verbatim>\<open>-\<close> and
  \<^verbatim>\<open>>\<close>: each is an integer, an infinity or \<^verbatim>\<open>NaN\<close>. \<open>Num i\<close> is the double whose value is
  the integer \<open>i\<close>.
\<close>

datatype number = Num int | PosInfinity | NegInfinity | NaN

text \<open>
  The Number value for an integer: the double nearest to it, the one with the even
  significand if two are equally near. A double has 53 significant bits, so
  every integer below \<open>2^53\<close> is a double; from there on the integer is rounded to 53
  bits, and what rounds to \<open>2^1024\<close> or more is infinite.
\<close>

fun bitLength :: "nat \<Rightarrow> nat" where
  "bitLength n = (if n = 0 then 0 else Suc (bitLength (n div 2)))"

declare bitLength.simps [simp del]

definition roundToEven :: "nat \<Rightarrow> nat" where
  "roundToEven n =
     (if n < 2 ^ 53 then n
      else (let e = bitLength n - 53; q = n div 2 ^ e; r = n mod 2 ^ e
            in (if 2 ^ e < 2 * r \<or> (2 * r = 2 ^ e \<and> odd q) then q + 1 else q) * 2 ^ e))"

definition toNumber :: "int \<Rightarrow> number" where
  "toNumber i =
     (let m = roundToEven (nat \<bar>i\<bar>)
      in if 2 ^ 1024 \<le> m then (if i < 0 then NegInfinity else PosInfinity)
         else Num (if i < 0 then - int m else int m))"

text \<open>The number of a length, an offset or a count.\<close>

definition ofNat :: "nat \<Rightarrow> number" where
  "ofNat n = toNumber (int n)"

text \<open>\<^verbatim>\<open>a + b\<close>, \<^verbatim>\<open>a - b\<close> and \<^verbatim>\<open>a > b\<close>: the exact result, rounded; \<^verbatim>\<open>NaN\<close> for the difference
  of equal infinities; no comparison holds of \<^verbatim>\<open>NaN\<close>.\<close>

fun jsAdd :: "number \<Rightarrow> number \<Rightarrow> number" where
  "jsAdd (Num x) (Num y) = toNumber (x + y)"
| "jsAdd (Num x) PosInfinity = PosInfinity"
| "jsAdd (Num x) NegInfinity = NegInfinity"
| "jsAdd PosInfinity (Num y) = PosInfinity"
| "jsAdd PosInfinity PosInfinity = PosInfinity"
| "jsAdd NegInfinity (Num y) = NegInfinity"
| "jsAdd NegInfinity NegInfinity = NegInfinity"
| "jsAdd _ _ = NaN"

fun jsSub :: "number \<Rightarrow> number \<Rightarrow> number" where
  "jsSub (Num x) (Num y) = toNumber (x - y)"
| "jsSub (Num x) PosInfinity = NegInfinity"
| "jsSub (Num x) NegInfinity = PosInfinity"
| "jsSub PosInfinity (Num y) = PosInfinity"
| "jsSub PosInfinity NegInfinity = PosInfinity"
| "jsSub NegInfinity (Num y) = NegInfinity"
| "jsSub NegInfinity PosInfinity = NegInfinity"
| "jsSub _ _ = NaN"

fun jsGreater :: "number \<Rightarrow> number \<Rightarrow> bool" where
  "jsGreater (Num x) (Num y) = (y < x)"
| "jsGreater (Num x) NegInfinity = True"
| "jsGreater PosInfinity (Num y) = True"
| "jsGreater PosInfinity NegInfinity = True"
| "jsGreater _ _ = False"

text \<open>
  \<^verbatim>\<open>parseInt(digits, 10)\<close> on a string of decimal digits, which is what the groups
  \<^verbatim>\<open>(\d+)\<close> hold: the Number value for the integer the digits denote, as the engine of the
  editor (V8) computes it. (ECMAScript lets an implementation read every digit after the
  20th as 0.)
\<close>

fun parseDigits :: "nat \<Rightarrow> jsstring \<Rightarrow> nat" where
  "parseDigits acc [] = acc"
| "parseDigits acc (c # cs) = parseDigits (10 * acc + (c - 48)) cs"

definition parseInt :: "jsstring \<Rightarrow> number" where
  "parseInt s = toNumber (int (parseDigits 0 s))"

text \<open>
  What a template string makes of a number (\<^verbatim>\<open>Number::toString\<close>). A finite number other
  than 0 is printed from the decimal with the fewest significant digits that reads back
  as the same double, the nearest to the number if there are two: \<open>shortestDecimal v z\<close>
  tries the multiples of \<open>10^z\<close> on either side of \<open>v\<close>, then those of \<open>10^(z - 1)\<close>, and so
  on down to \<open>v\<close> itself. A decimal of up to 21 digits is printed digit by digit, a longer
  one as its significant digits, a point after the first of them, and \<^verbatim>\<open>e+\<close> with the
  exponent.
\<close>

fun digitsOf :: "nat \<Rightarrow> jsstring" where
  "digitsOf n = (if n < 10 then [48 + n] else digitsOf (n div 10) @ [48 + n mod 10])"

declare digitsOf.simps [simp del]

fun shortestDecimal :: "nat \<Rightarrow> nat \<Rightarrow> nat" where
  "shortestDecimal v 0 = v"
| "shortestDecimal v (Suc z) =
     (let p = 10 ^ Suc z; lo = (v div p) * p; hi = lo + p;
          okLo = (toNumber (int lo) = toNumber (int v));
          okHi = (toNumber (int hi) = toNumber (int v))
      in if okLo \<and> okHi
         then (if v - lo < hi - v \<or> (v - lo = hi - v \<and> even (v div p)) then lo else hi)
         else if okLo then lo
         else if okHi then hi
         else shortestDecimal v z)"

definition significant :: "jsstring \<Rightarrow> jsstring" where
  "significant ds = rev (dropWhile (\<lambda>d. d = 48) (rev ds))"

definition mantissa :: "jsstring \<Rightarrow> jsstring" where
  "mantissa sig = (case sig of [] \<Rightarrow> [] | d # ds \<Rightarrow> d # (if ds = [] then [] else 46 # ds))"

definition expForm :: "nat \<Rightarrow> jsstring" where
  "expForm c =
     (let ds = digitsOf c
      in mantissa (significant ds) @ [101, 43] @ digitsOf (length ds - 1))"

definition decimalString :: "nat \<Rightarrow> jsstring" where
  "decimalString c = (if length (digitsOf c) \<le> 21 then digitsOf c else expForm c)"

definition posToString :: "nat \<Rightarrow> jsstring" where
  "posToString v = decimalString (shortestDecimal v (length (digitsOf v) - 1))"

fun numToString :: "number \<Rightarrow> jsstring" where
  "numToString NaN = asc ''NaN''"
| "numToString PosInfinity = asc ''Infinity''"
| "numToString NegInfinity = asc ''-Infinity''"
| "numToString (Num i) =
     (if i = 0 then [48]
      else if i < 0 then 45 # posToString (nat (- i))
      else posToString (nat i))"

section \<open>Regular expressions\<close>

text \<open>
  The regular expressions of the source use literals, the classes \<^verbatim>\<open>\s\<close>, \<^verbatim>\<open>\d\<close>, \<^verbatim>\<open>.\<close>
  and bracket classes, sequence, alternation, the quantifiers \<^verbatim>\<open>*\<close>, \<^verbatim>\<open>+\<close>, \<^verbatim>\<open>*?\<close>, \<^verbatim>\<open>+?\<close> on
  one-character atoms, \<^verbatim>\<open>?\<close> on a group, capture groups and the anchors \<^verbatim>\<open>^\<close> and \<^verbatim>\<open>$\<close>
  (never with the multiline flag). \<open>regex\<close> is their abstract syntax.
\<close>

datatype cset =
    Lit nat               \<comment> \<open>one code unit\<close>
  | AnyChar               \<comment> \<open>\<^verbatim>\<open>.\<close>\<close>
  | Space                 \<comment> \<open>\<^verbatim>\<open>\s\<close>\<close>
  | NotSpace              \<comment> \<open>\<^verbatim>\<open>\S\<close>\<close>
  | Digit                 \<comment> \<open>\<^verbatim>\<open>\d\<close>\<close>
  | Cls "cset list"       \<comment> \<open>\<^verbatim>\<open>[...]\<close>\<close>

datatype regex =
    Eps                   \<comment> \<open>the empty pattern\<close>
  | Chr cset
  | Seq regex regex
  | Alt regex regex
  | Rep bool nat cset     \<comment> \<open>greedy?, least count (0 for \<^verbatim>\<open>*\<close>, 1 for \<^verbatim>\<open>+\<close>), atom\<close>
  | Opt regex             \<comment> \<open>\<^verbatim>\<open>(?:r)?\<close>\<close>
  | Grp nat regex         \<comment> \<open>capture group number n\<close>
  | Bol                   \<comment> \<open>\<^verbatim>\<open>^\<close>\<close>
  | Eol                   \<comment> \<open>\<^verbatim>\<open>$\<close>\<close>

text \<open>
  With the flag \<^verbatim>\<open>i\<close> (and no flag \<^verbatim>\<open>u\<close>) two code units match when their
  canonicalizations agree: the upper case of the unit, except that a unit from 128 on is
  never mapped below 128. The literals of the one pattern of the source with this flag
  are ASCII, and for them this is the folding of \<^verbatim>\<open>a\<close>..\<^verbatim>\<open>z\<close> onto \<^verbatim>\<open>A\<close>..\<^verbatim>\<open>Z\<close>.
\<close>

definition canonicalize :: "bool \<Rightarrow> nat \<Rightarrow> nat" where
  "canonicalize ci c = (if ci \<and> 97 \<le> c \<and> c \<le> 122 then c - 32 else c)"

fun inCset :: "bool \<Rightarrow> cset \<Rightarrow> nat \<Rightarrow> bool" where
  "inCset ci (Lit a) c = (canonicalize ci a = canonicalize ci c)"
| "inCset ci AnyChar c = (\<not> isLineTerminator c)"
| "inCset ci Space c = isWhiteSpace c"
| "inCset ci NotSpace c = (\<not> isWhiteSpace c)"
| "inCset ci Digit c = isDigit c"
| "inCset ci (Cls xs) c = list_ex (\<lambda>x. inCset ci x c) xs"

text \<open>
  The matcher is the backtracking one of ECMAScript, as a list of successes: the states
  a pattern can end in from a given state, in the order in which backtracking tries them.
  A state is the position in the whole input, the input from there on, and the captures.
\<close>

record mstate =
  pos :: nat
  rest :: jsstring
  caps :: "nat \<rightharpoonup> jsstring"

definition advance :: "mstate \<Rightarrow> nat \<Rightarrow> mstate" where
  "advance st k = st\<lparr>pos := pos st + k, rest := drop k (rest st)\<rparr>"

fun rmatch :: "bool \<Rightarrow> regex \<Rightarrow> mstate \<Rightarrow> mstate list" where
  "rmatch ci Eps st = [st]"
| "rmatch ci (Chr cs) st =
     (case rest st of
        [] \<Rightarrow> []
      | c # _ \<Rightarrow> if inCset ci cs c then [advance st 1] else [])"
| "rmatch ci (Seq a b) st = concat (map (rmatch ci b) (rmatch ci a st))"
| "rmatch ci (Alt a b) st = rmatch ci a st @ rmatch ci b st"
| "rmatch ci (Rep greedy least cs) st =
     (let n = length (takeWhile (inCset ci cs) (rest st));
          ks = (if greedy then rev [least..<Suc n] else [least..<Suc n])
      in map (advance st) ks)"
| "rmatch ci (Opt r) st = rmatch ci r st @ [st]"
| "rmatch ci (Grp n r) st =
     map (\<lambda>st'. st'\<lparr>caps := (caps st')(n \<mapsto> take (pos st' - pos st) (rest st))\<rparr>)
       (rmatch ci r st)"
| "rmatch ci Bol st = (if pos st = 0 then [st] else [])"
| "rmatch ci Eol st = (if rest st = [] then [st] else [])"

text \<open>A match as \<^verbatim>\<open>exec\<close> returns it: \<^verbatim>\<open>index\<close>, the matched text, the groups.\<close>

record rmatched =
  index :: nat
  matched :: jsstring
  groups :: "nat \<rightharpoonup> jsstring"

definition matchAt :: "bool \<Rightarrow> regex \<Rightarrow> nat \<Rightarrow> jsstring \<Rightarrow> rmatched option" where
  "matchAt ci r i s =
     (case rmatch ci r \<lparr>pos = i, rest = s, caps = Map.empty\<rparr> of
        [] \<Rightarrow> None
      | st # _ \<Rightarrow> Some \<lparr>index = i, matched = take (pos st - i) s, groups = caps st\<rparr>)"

text \<open>\<^verbatim>\<open>exec\<close> from a start position on: the first position at which the pattern matches.\<close>

fun execFrom :: "bool \<Rightarrow> regex \<Rightarrow> nat \<Rightarrow> jsstring \<Rightarrow> rmatched option" where
  "execFrom ci r i [] = matchAt ci r i []"
| "execFrom ci r i (c # cs) =
     (case matchAt ci r i (c # cs) of
        Some m \<Rightarrow> Some m
      | None \<Rightarrow> execFrom ci r (Suc i) cs)"

definition exec :: "bool \<Rightarrow> regex \<Rightarrow> jsstring \<Rightarrow> rmatched option" where
  "exec ci r s = execFrom ci r 0 s"

definition test :: "bool \<Rightarrow> regex \<Rightarrow> jsstring \<Rightarrow> bool" where
  "test ci r s = (exec ci r s \<noteq> None)"

text \<open>\<^verbatim>\<open>s.replace(r, f)\<close> for a pattern without the flag \<^verbatim>\<open>g\<close>: the first match only.
  The replacement is a function of the matched text (\<^verbatim>\<open>$&\<close>).\<close>

definition replaceFirst ::
  "bool \<Rightarrow> regex \<Rightarrow> (jsstring \<Rightarrow> jsstring) \<Rightarrow> jsstring \<Rightarrow> jsstring" where
  "replaceFirst ci r f s =
     (case exec ci r s of
        None \<Rightarrow> s
      | Some m \<Rightarrow> take (index m) s @ f (matched m) @ drop (index m + length (matched m)) s)"

text \<open>\<^verbatim>\<open>s.replace(r, f)\<close> with the flag \<^verbatim>\<open>g\<close>: every match from left to right, the search
  going on after the end of a match, one unit further after an empty match.\<close>

function replaceAllFrom ::
  "bool \<Rightarrow> regex \<Rightarrow> (jsstring \<Rightarrow> jsstring) \<Rightarrow> nat \<Rightarrow> jsstring \<Rightarrow> jsstring" where
  "replaceAllFrom ci r f i [] =
     (case matchAt ci r i [] of None \<Rightarrow> [] | Some m \<Rightarrow> f [])"
| "replaceAllFrom ci r f i (c # cs) =
     (case matchAt ci r i (c # cs) of
        None \<Rightarrow> c # replaceAllFrom ci r f (Suc i) cs
      | Some m \<Rightarrow>
          (if matched m = [] then f [] @ c # replaceAllFrom ci r f (Suc i) cs
           else f (matched m) @
                replaceAllFrom ci r f (i + length (matched m)) (drop (length (matched m)) (c # cs))))"
  by pat_completeness auto
termination
  by (relation "measure (\<lambda>(ci, r, f, i, s). length s)") auto

definition replaceAll ::
  "bool \<Rightarrow> regex \<Rightarrow> (jsstring \<Rightarrow> jsstring) \<Rightarrow> jsstring \<Rightarrow> jsstring" where
  "replaceAll ci r f s = replaceAllFrom ci r f 0 s"

text \<open>Helpers to write patterns: a literal text, a sequence, an alternation.\<close>

fun lits :: "jsstring \<Rightarrow> regex" where
  "lits [] = Eps"
| "lits (c # cs) = Seq (Chr (Lit c)) (lits cs)"

fun seqs :: "regex list \<Rightarrow> regex" where
  "seqs [] = Eps"
| "seqs (r # rs) = Seq r (seqs rs)"

fun alts :: "regex list \<Rightarrow> regex" where
  "alts [] = Eps"
| "alts [r] = r"
| "alts (r # r' # rs) = Alt r (alts (r' # rs))"

section \<open>The review tree (extension.ts)\<close>

datatype Severity = Error | Warning | Info | Hint

text \<open>The values of the enumeration, as a template string prints them.\<close>

fun severityValue :: "Severity \<Rightarrow> jsstring" where
  "severityValue Error = asc ''error''"
| "severityValue Warning = asc ''warning''"
| "severityValue Info = asc ''info''"
| "severityValue Hint = asc ''hint''"

record range =
  startLine :: number
  startCharacter :: number
  endLine :: number
  endCharacter :: number

text \<open>
  A \<^verbatim>\<open>ReviewItem\<close> of the tree: the fields the constructor receives and the
  \<^verbatim>\<open>command\<close> it derives, whose \<^verbatim>\<open>selection\<close> is the place the editor jumps to (the
  icon, the tooltip and the collapsible state are left out). The items built by the
  parser have no children.
\<close>

record ReviewItem =
  label :: jsstring
  resourceUri :: "jsstring option"
  severity :: "Severity option"
  lineNumber :: "number option"
  colNumber :: "number option"
  command :: "range option"

definition newReviewItem ::
  "jsstring \<Rightarrow> jsstring option \<Rightarrow> Severity option \<Rightarrow> number option \<Rightarrow> number option \<Rightarrow>
     ReviewItem" where
  "newReviewItem lbl uri sev ln col =
     \<lparr>label = lbl, resourceUri = uri, severity = sev, lineNumber = ln, colNumber = col,
      command =
        (case (uri, ln) of
           (Some u, Some l) \<Rightarrow>
             Some \<lparr>startLine = (if jsGreater l (Num 0) then jsSub l (Num 1) else Num 0),
                   startCharacter = (case col of Some c \<Rightarrow> c | None \<Rightarrow> Num 0),
                   endLine = (if jsGreater l (Num 0) then jsSub l (Num 1) else Num 0),
                   endCharacter = (case col of Some c \<Rightarrow> jsAdd c (Num 1) | None \<Rightarrow> Num 1)\<rparr>
         | _ \<Rightarrow> None)\<rparr>"

text \<open>\<^verbatim>\<open>/<think>[\s\S]*?<\/think>/g\<close>\<close>

definition thinkRegex :: regex where
  "thinkRegex =
     seqs [lits (asc ''<think>''), Rep False 0 (Cls [Space, NotSpace]), lits (asc ''</think>'')]"

text \<open>\<^verbatim>\<open>/^(L|Line|U+884C)\s*\d+:?\s*$/\<close>\<close>

definition lineLabelRegex :: regex where
  "lineLabelRegex =
     seqs [Bol, Grp 1 (alts [lits (asc ''L''), lits (asc ''Line''), lits [34892]]),
           Rep True 0 Space, Rep True 1 Digit, Opt (Chr (Lit 58)), Rep True 0 Space, Eol]"

text \<open>\<^verbatim>\<open>/^[\sU+2022\-\*\+U+30FB U+30FB U+30FB U+30FB]\s*/\<close>\<close>

definition bulletRegex :: regex where
  "bulletRegex =
     seqs [Bol,
           Chr (Cls [Space, Lit 8226, Lit 45, Lit 42, Lit 43,
                     Lit 12539, Lit 12539, Lit 12539, Lit 12539]),
           Rep True 0 Space]"

text \<open>
  \<^verbatim>\<open>/^\[(ERROR|WARNING|INFO|HINT)\]\s*:?\s*(.+?)(?:\s+\[Ln\s+(\d+)(?:,\s*Col\s+(\d+))?\])?$/i\<close>
\<close>

definition severityRegex :: regex where
  "severityRegex =
     seqs [Bol, Chr (Lit 91),
           Grp 1 (alts [lits (asc ''ERROR''), lits (asc ''WARNING''),
                        lits (asc ''INFO''), lits (asc ''HINT'')]),
           Chr (Lit 93), Rep True 0 Space, Opt (Chr (Lit 58)), Rep True 0 Space,
           Grp 2 (Rep False 1 AnyChar),
           Opt (seqs [Rep True 1 Space, lits (asc ''[Ln''), Rep True 1 Space,
                      Grp 3 (Rep True 1 Digit),
                      Opt (seqs [Chr (Lit 44), Rep True 0 Space, lits (asc ''Col''),
                                 Rep True 1 Space, Grp 4 (Rep True 1 Digit)]),
                      Chr (Lit 93)]),
           Eol]"

text \<open>The filter of the lines: \<open>False\<close> drops the line.\<close>

definition keepLine :: "jsstring \<Rightarrow> bool" where
  "keepLine line =
     (if length line = 0 then False
      else if startsWith line (asc ''<think>'') \<or> startsWith line (asc ''think '') then False
      else if startsWith line (asc ''Here are'') \<or>
              startsWith line [20197, 19979, 12395] \<or>
              startsWith line [12524, 12499, 12517, 12540, 32080, 26524] \<or>
              startsWith line [12467, 12540, 12489, 12524, 12499, 12517, 12540] \<or>
              startsWith line [25351, 25688, 20107, 38917] \<or>
              includesStr line (asc ''---'') \<or>
              includesStr line (asc ''==='') \<or>
              includesStr line (asc ''###'') \<or>
              includesStr line (asc ''```'') \<or>
              startsWith line (asc ''#'') then False
      else if test False lineLabelRegex line then False
      else True)"

definition reviewLines :: "jsstring \<Rightarrow> jsstring list" where
  "reviewLines text =
     map (\<lambda>line. trim (replaceFirst False bulletRegex (\<lambda>_. []) line))
       (filter keepLine
         (map trim (splitOn 10 (replaceAll False thinkRegex (\<lambda>_. []) text))))"

text \<open>
  \<^verbatim>\<open>toUpperCase()\<close>, on ASCII: the source applies it to group 1 of the pattern, which
  is made of ASCII letters.
\<close>

definition toUpperCase :: "jsstring \<Rightarrow> jsstring" where
  "toUpperCase s = map (\<lambda>c. if 97 \<le> c \<and> c \<le> 122 then c - 32 else c) s"

text \<open>What one line of the loop reads from a match: the locals \<^verbatim>\<open>severity\<close>,
  \<^verbatim>\<open>content\<close>, \<^verbatim>\<open>lineNumber\<close> and \<^verbatim>\<open>colNumber\<close>.\<close>

record finding =
  fSeverity :: Severity
  content :: jsstring
  fLine :: "number option"
  fCol :: "number option"

definition severityOfText :: "jsstring \<Rightarrow> Severity" where
  "severityOfText severityText =
     (if severityText = asc ''ERROR'' then Error
      else if severityText = asc ''WARNING'' then Warning
      else if severityText = asc ''INFO'' then Info
      else if severityText = asc ''HINT'' then Hint
      else Info)"

definition findingOfLine :: "jsstring \<Rightarrow> finding option" where
  "findingOfLine line =
     (case exec True severityRegex line of
        None \<Rightarrow> None
      | Some severityMatch \<Rightarrow>
          (case (groups severityMatch 1, groups severityMatch 2) of
             (Some g1, Some g2) \<Rightarrow>
               Some \<lparr>fSeverity = severityOfText (toUpperCase g1),
                     content = trim g2,
                     fLine = map_option parseInt (groups severityMatch 3),
                     fCol = map_option parseInt (groups severityMatch 4)\<rparr>
           | _ \<Rightarrow> None))"

text \<open>A number is truthy when it is there and neither 0 nor \<^verbatim>\<open>NaN\<close>; \<^verbatim>\<open>n || 0\<close>.\<close>

definition truthy :: "number option \<Rightarrow> bool" where
  "truthy n = (case n of None \<Rightarrow> False | Some k \<Rightarrow> k \<noteq> Num 0 \<and> k \<noteq> NaN)"

definition orZero :: "number option \<Rightarrow> number" where
  "orZero n = (case n of None \<Rightarrow> Num 0 | Some k \<Rightarrow> if truthy n then k else Num 0)"

fun severityPrefix :: "Severity \<Rightarrow> jsstring" where
  "severityPrefix Error = [91, 12456, 12521, 12540, 93, 32]"
| "severityPrefix Warning = [91, 35686, 21578, 93, 32]"
| "severityPrefix Info = [91, 24773, 22577, 93, 32]"
| "severityPrefix Hint = [91, 12498, 12531, 12488, 93, 32]"

definition positionSuffix :: "number option \<Rightarrow> number option \<Rightarrow> jsstring" where
  "positionSuffix ln col =
     (if truthy ln
      then [32, 40, 34892, 32] @ numToString (orZero ln) @
           (if truthy col then [44, 32, 21015, 32] @ numToString (orZero col) else []) @ [41]
      else [])"

definition displayText :: "finding \<Rightarrow> jsstring" where
  "displayText f = severityPrefix (fSeverity f) @ content f @ positionSuffix (fLine f) (fCol f)"

definition itemOfFinding :: "jsstring \<Rightarrow> finding \<Rightarrow> ReviewItem" where
  "itemOfFinding uri f =
     newReviewItem (displayText f) (Some uri) (Some (fSeverity f)) (fLine f) (fCol f)"

definition reviewKey :: "finding \<Rightarrow> jsstring" where
  "reviewKey f =
     severityValue (fSeverity f) @ [45] @ content f @ [45] @
     numToString (orZero (fLine f)) @ [45] @ numToString (orZero (fCol f))"

text \<open>One turn of the loop over the lines, on \<^verbatim>\<open>uniqueReviews\<close> and \<^verbatim>\<open>reviewItems\<close>.\<close>

definition reviewStep ::
  "jsstring \<Rightarrow> jsstring set \<times> ReviewItem list \<Rightarrow> jsstring \<Rightarrow> jsstring set \<times> ReviewItem list" where
  "reviewStep uri acc line =
     (case findingOfLine line of
        None \<Rightarrow> acc
      | Some f \<Rightarrow>
          (if reviewKey f \<notin> fst acc
           then (insert (reviewKey f) (fst acc), snd acc @ [itemOfFinding uri f])
           else acc))"

definition collectReviewItems :: "jsstring \<Rightarrow> jsstring \<Rightarrow> ReviewItem list" where
  "collectReviewItems text uri = snd (foldl (reviewStep uri) ({}, []) (reviewLines text))"

text \<open>
  The comparison function of the sort, and the sort. \<^verbatim>\<open>Array.prototype.sort\<close> reads a
  result that is \<^verbatim>\<open>NaN\<close> as 0, and puts \<open>y\<close> before \<open>x\<close> only when the comparison of \<open>x\<close> with
  \<open>y\<close> is greater than 0. It is stable, and this comparison is consistent, so the result is
  the one of any stable sort: here insertion, from the right.
\<close>

definition compareItems :: "ReviewItem \<Rightarrow> ReviewItem \<Rightarrow> number" where
  "compareItems a b =
     (case (lineNumber a, lineNumber b) of
        (None, None) \<Rightarrow> Num 0
      | (None, Some y) \<Rightarrow> Num 1
      | (Some x, None) \<Rightarrow> Num (- 1)
      | (Some x, Some y) \<Rightarrow> jsSub x y)"

definition sortCompare :: "('a \<Rightarrow> 'a \<Rightarrow> number) \<Rightarrow> 'a \<Rightarrow> 'a \<Rightarrow> number" where
  "sortCompare comparefn x y = (let v = comparefn x y in if v = NaN then Num 0 else v)"

fun insertBy :: "('a \<Rightarrow> 'a \<Rightarrow> number) \<Rightarrow> 'a \<Rightarrow> 'a list \<Rightarrow> 'a list" where
  "insertBy cmp x [] = [x]"
| "insertBy cmp x (y # ys) =
     (if jsGreater (sortCompare cmp x y) (Num 0) then y # insertBy cmp x ys else x # y # ys)"

definition sortBy :: "('a \<Rightarrow> 'a \<Rightarrow> number) \<Rightarrow> 'a list \<Rightarrow> 'a list" where
  "sortBy cmp xs = foldr (insertBy cmp) xs []"

text \<open>
  \<^verbatim>\<open>_parseReviewItems(text, fileUri)\<close>. Its one caller, \<^verbatim>\<open>update\<close>, always passes the
  URI, so \<^verbatim>\<open>resourceUri\<close> is that URI.
\<close>

definition parseReviewItems :: "jsstring \<Rightarrow> jsstring \<Rightarrow> ReviewItem list" where
  "parseReviewItems text uri = sortBy compareItems (collectReviewItems text uri)"

text \<open>
  \<^verbatim>\<open>updateDiagnostics(doc, reviewText)\<close>, as far as it reads the text: the lines it
  looks at, and the \<^verbatim>\<open>lineNumber\<close> and \<^verbatim>\<open>colNumber\<close> it takes from a line that matches, the
  line number made zero-based and 0 standing for a number that is missing. (The range of
  the diagnostic is these two, clamped to the document.)
\<close>

definition diagnosticLines :: "jsstring \<Rightarrow> jsstring list" where
  "diagnosticLines reviewText =
     filter (\<lambda>ln. length ln > 0) (map trim (splitOn 10 reviewText))"

definition diagnosticPlace :: "jsstring \<Rightarrow> (number \<times> number) option" where
  "diagnosticPlace ln =
     (case exec True severityRegex ln of
        None \<Rightarrow> None
      | Some severityMatch \<Rightarrow>
          Some ((case groups severityMatch 3 of
                   Some d \<Rightarrow> jsSub (parseInt d) (Num 1) | None \<Rightarrow> Num 0),
                (case groups severityMatch 4 of Some d \<Rightarrow> parseInt d | None \<Rightarrow> Num 0)))"

section \<open>The snippet resolver (llm-client.ts)\<close>

record position =
  line :: nat
  character :: nat

text \<open>
  Modelled from the spec: \<^verbatim>\<open>doc.positionAt(offset)\<close> is the editor's, not the repository's.
  The spec (4.1, step 2) gives it as: line = count of newline characters before the
  offset; column = offset minus the index of the preceding newline, or offset itself if
  on line 0.
\<close>

definition positionAt :: "jsstring \<Rightarrow> nat \<Rightarrow> position" where
  "positionAt docText offset =
     (let before = take offset docText;
          ln = length (filter (\<lambda>c. c = 10) before);
          lastNewline = length before - 1 - length (takeWhile (\<lambda>c. c \<noteq> 10) (rev before))
      in \<lparr>line = ln, character = (if ln = 0 then offset else offset - lastNewline)\<rparr>)"

text \<open>\<^verbatim>\<open>/[.*+?^${}()|[\]\\]/g\<close>: the syntax characters of a pattern.\<close>

definition syntaxChars :: "nat list" where
  "syntaxChars = [46, 42, 43, 63, 94, 36, 123, 125, 40, 41, 124, 91, 93, 92]"

definition metaRegex :: regex where
  "metaRegex = Chr (Cls (map Lit syntaxChars))"

text \<open>
  \<^verbatim>\<open>snippet.replace(/[.*+?^${}()|[\]\\]/g, '\\$&').trim().replace(/\s+/g, '\\s+')\<close>
\<close>

definition escapeSnippet :: "jsstring \<Rightarrow> jsstring" where
  "escapeSnippet snippet =
     replaceAll False (Rep True 1 Space) (\<lambda>_. [92, 115, 43])
       (trim (replaceAll False metaRegex (\<lambda>m. 92 # m) snippet))"

text \<open>
  \<^verbatim>\<open>new RegExp(pattern, 'g')\<close>, which throws a \<^verbatim>\<open>SyntaxError\<close> on a malformed pattern. The
  model reads the patterns the escaping above can build: \<^verbatim>\<open>\s+\<close>, \<^verbatim>\<open>\s\<close>, an escaped syntax
  character, and any other character but a bare syntax character. On every other
  pattern it answers as the constructor does when it throws, the one failure the source
  provides for.
\<close>

datatype error = SyntaxError

definition seqE :: "regex \<Rightarrow> error + regex \<Rightarrow> error + regex" where
  "seqE a r = (case r of Inl e \<Rightarrow> Inl e | Inr b \<Rightarrow> Inr (Seq a b))"

fun newRegExp :: "jsstring \<Rightarrow> error + regex" where
  "newRegExp [] = Inr Eps"
| "newRegExp (c # cs) =
     (if c = 92 then
        (case cs of
           [] \<Rightarrow> Inl SyntaxError
         | d # ds \<Rightarrow>
             if d = 115 then
               (case ds of
                  [] \<Rightarrow> Inr (Seq (Chr Space) Eps)
                | e # es \<Rightarrow>
                    if e = 43 then seqE (Rep True 1 Space) (newRegExp es)
                    else seqE (Chr Space) (newRegExp (e # es)))
             else if d \<in> set syntaxChars then seqE (Chr (Lit d)) (newRegExp ds)
             else Inl SyntaxError)
      else if c \<in> set syntaxChars then Inl SyntaxError
      else seqE (Chr (Lit c)) (newRegExp cs))"

text \<open>The body of the \<^verbatim>\<open>try\<close>: \<open>Inl\<close> is an exception thrown in it, \<open>Inr\<close> the
  \<^verbatim>\<open>index\<close> of the match, if there is one.\<close>

definition regexPass :: "jsstring \<Rightarrow> jsstring \<Rightarrow> error + nat option" where
  "regexPass escapedSnippet docText =
     (case newRegExp escapedSnippet of
        Inl e \<Rightarrow> Inl e
      | Inr regex \<Rightarrow> Inr (map_option index (exec False regex docText)))"

text \<open>\<^verbatim>\<open>snippet.split(/\s+/)\<close>\<close>

function splitWs :: "jsstring \<Rightarrow> jsstring list" where
  "splitWs [] = [[]]"
| "splitWs (c # cs) =
     (if isWhiteSpace c then [] # splitWs (dropWhile isWhiteSpace cs)
      else (case splitWs cs of [] \<Rightarrow> [[c]] | x # xs \<Rightarrow> (c # x) # xs))"
  by pat_completeness auto
termination
  by (relation "measure length") (auto simp: length_dropWhile_le less_Suc_eq_le)

definition substring :: "jsstring \<Rightarrow> nat \<Rightarrow> nat \<Rightarrow> jsstring" where
  "substring s a b = take (b - a) (drop a s)"

text \<open>The loop over the significant words; \<open>words\<close> is the whole list, the second
  argument what is left of it.\<close>

fun fuzzyLoop :: "jsstring list \<Rightarrow> jsstring list \<Rightarrow> jsstring \<Rightarrow> position option" where
  "fuzzyLoop words [] docText = None"
| "fuzzyLoop words (word # ws) docText =
     (case indexOf docText word of
        None \<Rightarrow> fuzzyLoop words ws docText
      | Some idx \<Rightarrow>
          (let contextStart = idx - 50;
               contextEnd = min (length docText) (idx + 50);
               context = substring docText contextStart contextEnd
           in if length (filter (\<lambda>w. includesStr context w) words) \<ge> 2
              then Some (positionAt docText idx)
              else fuzzyLoop words ws docText))"

definition fuzzyPass :: "jsstring \<Rightarrow> jsstring \<Rightarrow> position option" where
  "fuzzyPass snippet docText =
     (let words = take 3 (filter (\<lambda>word. length word > 3) (splitWs snippet))
      in fuzzyLoop words words docText)"

text \<open>
  \<^verbatim>\<open>findPositionByCodeSnippet(snippet, doc, OUTPUT)\<close>, with \<open>docText\<close> for
  \<^verbatim>\<open>doc.getText()\<close>. An absent snippet is \<open>None\<close>; \<^verbatim>\<open>!snippet\<close> holds of it and of the empty
  string. The \<^verbatim>\<open>catch\<close> swallows what the \<^verbatim>\<open>try\<close> throws.
\<close>

definition findPositionByCodeSnippet :: "jsstring option \<Rightarrow> jsstring \<Rightarrow> position option" where
  "findPositionByCodeSnippet snippet docText =
     (case snippet of
        None \<Rightarrow> None
      | Some s \<Rightarrow>
          if s = [] then None
          else (case regexPass (escapeSnippet s) docText of
                  Inr (Some offset) \<Rightarrow> Some (positionAt docText offset)
                | _ \<Rightarrow> if length s > 15 then fuzzyPass s docText else None))"

section \<open>The structured path (llm-client.ts)\<close>

text \<open>An entry of the \<^verbatim>\<open>reviews\<close> list of the tool call (the interface \<^verbatim>\<open>ReviewItem\<close>
  of llm-client.ts).\<close>

record reviewEntry =
  entrySeverity :: jsstring
  message :: jsstring
  codeSnippet :: "jsstring option"

definition noReviewsText :: jsstring where
  "noReviewsText =
     [12524, 12499, 12517, 12540, 32080, 26524, 12364, 12354, 12426, 12414, 12379, 12435]"

definition formatReview :: "jsstring \<Rightarrow> reviewEntry \<Rightarrow> jsstring" where
  "formatReview docText review =
     (let locationText =
            (case findPositionByCodeSnippet (codeSnippet review) docText of
               Some p \<Rightarrow>
                 asc '' [Ln '' @ numToString (jsAdd (ofNat (line p)) (Num 1)) @ asc '', Col '' @
                 numToString (ofNat (character p)) @ asc '']''
             | None \<Rightarrow> [])
      in [91] @ entrySeverity review @ [93] @ message review @ locationText)"

text \<open>\<^verbatim>\<open>formatFunctionCallResults(result, doc, OUTPUT)\<close>; \<open>None\<close> is a result whose
  \<^verbatim>\<open>reviews\<close> is missing or not an array.\<close>

definition formatFunctionCallResults :: "reviewEntry list option \<Rightarrow> jsstring \<Rightarrow> jsstring" where
  "formatFunctionCallResults reviews docText =
     (case reviews of
        None \<Rightarrow> noReviewsText
      | Some rs \<Rightarrow> joinWith 10 (map (formatReview docText) rs))"

text \<open>
  \<^verbatim>\<open>requestLLMReviewWithFunctionCalling\<close>, from the response on: the arguments of the
  first \<^verbatim>\<open>reviewCode\<close> tool call are formatted; \<open>None\<close> is a response without such a call, or
  a request that failed.
\<close>

definition requestLLMReviewWithFunctionCalling ::
  "reviewEntry list option option \<Rightarrow> jsstring \<Rightarrow> jsstring" where
  "requestLLMReviewWithFunctionCalling toolCall docText =
     (case toolCall of
        None \<Rightarrow> noReviewsText
      | Some result \<Rightarrow> formatFunctionCallResults result docText)"

section \<open>The result store (extension.ts)\<close>

record ViewBadge =
  badgeValue :: nat
  tooltip :: jsstring

record TreeView =
  badge :: "ViewBadge option"

text \<open>
  The state of \<^verbatim>\<open>ReviewTreeDataProvider\<close>: the \<^verbatim>\<open>Map\<close> from URI to items, in insertion
  order; the tree view, once \<^verbatim>\<open>setTreeView\<close> has attached one; and what
  \<^verbatim>\<open>_onDidChangeTreeData.fire()\<close> has shown its listeners: one entry per call, the map as it
  was at the call.
\<close>

record ReviewTreeDataProvider =
  reviewItemsByFile :: "(jsstring \<times> ReviewItem list) list"
  treeView :: "TreeView option"
  fired :: "(jsstring \<times> ReviewItem list) list list"

definition totalReviewCount :: "(jsstring \<times> ReviewItem list) list \<Rightarrow> nat" where
  "totalReviewCount m = sum_list (map (\<lambda>(uri, items). length items) m)"

definition badgeOf :: "nat \<Rightarrow> ViewBadge option" where
  "badgeOf count =
     (if count > 0
      then Some \<lparr>badgeValue = count,
                 tooltip = numToString (ofNat count) @ [20214, 12398, 25351, 25688, 20107, 38917]\<rparr>
      else None)"

definition updateBadge :: "ReviewTreeDataProvider \<Rightarrow> ReviewTreeDataProvider" where
  "updateBadge p =
     (case treeView p of
        None \<Rightarrow> p
      | Some v \<Rightarrow>
          p\<lparr>treeView :=
              Some (v\<lparr>badge := badgeOf (totalReviewCount (reviewItemsByFile p))\<rparr>)\<rparr>)"

definition fire :: "ReviewTreeDataProvider \<Rightarrow> ReviewTreeDataProvider" where
  "fire p = p\<lparr>fired := fired p @ [reviewItemsByFile p]\<rparr>"

definition setTreeView ::
  "TreeView \<Rightarrow> ReviewTreeDataProvider \<Rightarrow> ReviewTreeDataProvider" where
  "setTreeView v p = p\<lparr>treeView := Some v\<rparr>"

text \<open>\<^verbatim>\<open>update(uriString, text)\<close>: the map's \<^verbatim>\<open>set\<close>, the count and the badge (the same
  lines as \<^verbatim>\<open>updateBadge\<close>), then \<^verbatim>\<open>fire()\<close>.\<close>

definition update ::
  "jsstring \<Rightarrow> jsstring \<Rightarrow> ReviewTreeDataProvider \<Rightarrow> ReviewTreeDataProvider" where
  "update uriString text p =
     fire (updateBadge
       (p\<lparr>reviewItemsByFile :=
            AList.update uriString (parseReviewItems text uriString) (reviewItemsByFile p)\<rparr>))"

text \<open>\<^verbatim>\<open>clearFileReviews(uriString)\<close>, on the provider (the diagnostics it deletes next
  are the editor's).\<close>

definition clearFileReviews ::
  "jsstring \<Rightarrow> ReviewTreeDataProvider \<Rightarrow> ReviewTreeDataProvider" where
  "clearFileReviews uriString p =
     (if map_of (reviewItemsByFile p) uriString \<noteq> None
      then fire (updateBadge
             (p\<lparr>reviewItemsByFile := AList.delete uriString (reviewItemsByFile p)\<rparr>))
      else p)"

text \<open>The provider the extension starts with, and the one \<^verbatim>\<open>activate\<close> leaves: a tree
  view without a badge is attached before any review runs.\<close>

definition newProvider :: ReviewTreeDataProvider where
  "newProvider = \<lparr>reviewItemsByFile = [], treeView = None, fired = []\<rparr>"

definition activated :: ReviewTreeDataProvider where
  "activated = setTreeView \<lparr>badge = None\<rparr> newProvider"

text \<open>\<^verbatim>\<open>lintDocument(doc)\<close>, on the provider: the reviews of the file are cleared, the
  model is asked, the tree is updated with the text that comes back.\<close>

definition lintDocument ::
  "reviewEntry list option option \<Rightarrow> jsstring \<Rightarrow> jsstring \<Rightarrow>
     ReviewTreeDataProvider \<Rightarrow> ReviewTreeDataProvider" where
  "lintDocument toolCall uriString docText p =
     update uriString (requestLLMReviewWithFunctionCalling toolCall docText)
       (clearFileReviews uriString p)"

section \<open>Notions the properties are stated with\<close>

text \<open>The zero-based position of an item, line and column: where the selection of its
  command starts. An item without a command has none.\<close>

definition itemPosition :: "ReviewItem \<Rightarrow> (number \<times> number) option" where
  "itemPosition i = map_option (\<lambda>r. (startLine r, startCharacter r)) (command i)"

text \<open>The finding an item was built from: its label is the prefix of its severity, the
  message, and the suffix of its position.\<close>

definition findingOfItem :: "ReviewItem \<Rightarrow> finding" where
  "findingOfItem i =
     (let sev = (case severity i of Some s \<Rightarrow> s | None \<Rightarrow> Info);
          pre = length (severityPrefix sev);
          suf = length (positionSuffix (lineNumber i) (colNumber i))
      in \<lparr>fSeverity = sev,
          content = take (length (label i) - pre - suf) (drop pre (label i)),
          fLine = lineNumber i,
          fCol = colNumber i\<rparr>)"

text \<open>The findings of the lines that match the pattern, in the order of the lines.\<close>

definition matchedFindings :: "jsstring \<Rightarrow> finding list" where
  "matchedFindings text = List.map_filter findingOfLine (reviewLines text)"

text \<open>Of the elements with the same key only the first: the head stays, everything
  after it with its key goes, and so on.\<close>

function firstOccurrences :: "('a \<Rightarrow> 'k) \<Rightarrow> 'a list \<Rightarrow> 'a list" where
  "firstOccurrences key [] = []"
| "firstOccurrences key (x # xs) =
     x # firstOccurrences key (filter (\<lambda>y. key y \<noteq> key x) xs)"
  by pat_completeness auto
termination
  by (relation "measure (\<lambda>(key, xs). length xs)") (auto simp: less_Suc_eq_le)

text \<open>\<^verbatim>\<open>a <= b\<close>, and \<open>a\<close> may stand before \<open>b\<close>: line numbers ascend, and an item without
  a line number stands after every item with one.\<close>

fun jsLessEq :: "number \<Rightarrow> number \<Rightarrow> bool" where
  "jsLessEq (Num x) (Num y) = (x \<le> y)"
| "jsLessEq (Num x) PosInfinity = True"
| "jsLessEq NegInfinity (Num y) = True"
| "jsLessEq NegInfinity NegInfinity = True"
| "jsLessEq NegInfinity PosInfinity = True"
| "jsLessEq PosInfinity PosInfinity = True"
| "jsLessEq _ _ = False"

definition lineOrdered :: "ReviewItem \<Rightarrow> ReviewItem \<Rightarrow> bool" where
  "lineOrdered a b =
     (case (lineNumber a, lineNumber b) of
        (Some x, Some y) \<Rightarrow> jsLessEq x y
      | (Some x, None) \<Rightarrow> True
      | (None, Some y) \<Rightarrow> False
      | (None, None) \<Rightarrow> True)"

text \<open>
  White space tolerance. \<open>wsRuns p s\<close> is \<open>s\<close> with every run
  of white space replaced by \<open>p\<close>, and \<open>squeeze\<close> puts one space for every run: two texts
  are the same up to their runs of white space when they squeeze to the same text. A
  snippet has a white-space-tolerant match at offset \<open>j\<close> of a document when some
  stretch of the document from \<open>j\<close> on is the trimmed snippet up to its runs of white
  space.
\<close>

function wsRuns :: "jsstring \<Rightarrow> jsstring \<Rightarrow> jsstring" where
  "wsRuns p [] = []"
| "wsRuns p (c # cs) =
     (if isWhiteSpace c then p @ wsRuns p (dropWhile isWhiteSpace cs) else c # wsRuns p cs)"
  by pat_completeness auto
termination
  by (relation "measure (\<lambda>(p, s). length s)") (auto simp: length_dropWhile_le less_Suc_eq_le)

definition squeeze :: "jsstring \<Rightarrow> jsstring" where
  "squeeze s = wsRuns [32] s"

definition wsMatchAt :: "jsstring \<Rightarrow> jsstring \<Rightarrow> nat \<Rightarrow> bool" where
  "wsMatchAt snippet docText j =
     (j \<le> length docText \<and>
      list_ex (\<lambda>n. squeeze (take n (drop j docText)) = squeeze (trim snippet))
        [0..<Suc (length docText - j)])"

text \<open>The pattern of a trimmed snippet, read off the snippet: one or more white space
  for a run of white space, the character itself for any other.\<close>

function snippetPattern :: "jsstring \<Rightarrow> regex" where
  "snippetPattern [] = Eps"
| "snippetPattern (c # cs) =
     (if isWhiteSpace c then Seq (Rep True 1 Space) (snippetPattern (dropWhile isWhiteSpace cs))
      else Seq (Chr (Lit c)) (snippetPattern cs))"
  by pat_completeness auto
termination
  by (relation "measure length") (auto simp: length_dropWhile_le less_Suc_eq_le)

text \<open>What the first \<^verbatim>\<open>replace\<close> makes of one character.\<close>

definition escChar :: "nat \<Rightarrow> jsstring" where
  "escChar c = (if c \<in> set syntaxChars then [92, c] else [c])"

text \<open>The closed enumeration of severity tokens, and the severity token of a line or
  of a formatted entry: what stands between the bracket that opens the line and the
  first closing bracket.\<close>

definition severityTokens :: "jsstring list" where
  "severityTokens = [asc ''ERROR'', asc ''WARNING'', asc ''INFO'', asc ''HINT'']"

definition severityTokenOf :: "jsstring \<Rightarrow> jsstring option" where
  "severityTokenOf ln =
     (case ln of
        [] \<Rightarrow> None
      | c # cs \<Rightarrow> if c = 91 \<and> 93 \<in> set cs then Some (takeWhile (\<lambda>x. x \<noteq> 93) cs) else None)"

text \<open>An entry that is formatted on one line and holds no tag of a reasoning
  segment: its severity has no closing bracket, and neither its severity nor its message
  has a line feed or a \<^verbatim>\<open><\<close>.\<close>

definition plainEntry :: "reviewEntry \<Rightarrow> bool" where
  "plainEntry e =
     (93 \<notin> set (entrySeverity e) \<and>
      10 \<notin> set (entrySeverity e @ message e) \<and>
      60 \<notin> set (entrySeverity e @ message e))"

text \<open>The number the badge of the tree view shows; no badge shows none, which
  is how the source shows a count of 0.\<close>

definition badgeCount :: "ReviewTreeDataProvider \<Rightarrow> nat" where
  "badgeCount p =
     (case treeView p of
        None \<Rightarrow> 0
      | Some v \<Rightarrow> (case badge v of None \<Rightarrow> 0 | Some b \<Rightarrow> badgeValue b))"

text \<open>The mutations of the store, a run of them, and the URIs that have been updated
  and not cleared since, each with the text of its last update.\<close>

datatype storeOp = Update jsstring jsstring | Clear jsstring

fun applyOp :: "storeOp \<Rightarrow> ReviewTreeDataProvider \<Rightarrow> ReviewTreeDataProvider" where
  "applyOp (Update u t) p = update u t p"
| "applyOp (Clear u) p = clearFileReviews u p"

definition runOps :: "storeOp list \<Rightarrow> ReviewTreeDataProvider \<Rightarrow> ReviewTreeDataProvider" where
  "runOps ops p = foldl (\<lambda>q x. applyOp x q) p ops"

fun liveStep :: "(jsstring \<rightharpoonup> jsstring) \<Rightarrow> storeOp \<Rightarrow> (jsstring \<rightharpoonup> jsstring)" where
  "liveStep m (Update u t) = m(u \<mapsto> t)"
| "liveStep m (Clear u) = m(u := None)"

definition liveTexts :: "storeOp list \<Rightarrow> (jsstring \<rightharpoonup> jsstring)" where
  "liveTexts ops = foldl liveStep Map.empty ops"

section \<open>Numbers\<close>

lemma bitLength_less: "n < 2 ^ bitLength n"
proof (induction n rule: bitLength.induct)
  case (1 n)
  show ?case
  proof (cases "n = 0")
    case True then show ?thesis by (simp add: bitLength.simps)
  next
    case False
    with 1 have "n div 2 < 2 ^ bitLength (n div 2)" by simp
    then have "n < 2 * 2 ^ bitLength (n div 2)" by linarith
    with False show ?thesis by (simp add: bitLength.simps [of n])
  qed
qed

lemma bitLength_ge: "n \<noteq> 0 \<Longrightarrow> 2 ^ (bitLength n - 1) \<le> n"
proof (induction n rule: bitLength.induct)
  case (1 n)
  show ?case
  proof (cases "n div 2 = 0")
    case True
    with 1(2) show ?thesis by (simp add: bitLength.simps [of n] bitLength.simps [of 0])
  next
    case False
    with 1 have "2 ^ (bitLength (n div 2) - 1) \<le> n div 2" by simp
    then have "2 * 2 ^ (bitLength (n div 2) - 1) \<le> n" by linarith
    moreover from False have "bitLength (n div 2) \<noteq> 0" by (simp add: bitLength.simps [of "n div 2"])
    then have "2 * (2::nat) ^ (bitLength (n div 2) - 1) = 2 ^ bitLength (n div 2)"
      by (cases "bitLength (n div 2)") simp_all
    ultimately show ?thesis using 1(2) by (simp add: bitLength.simps [of n])
  qed
qed

lemma bitLength_eq:
  assumes "2 ^ k \<le> n" and "n < 2 ^ Suc k"
  shows "bitLength n = Suc k"
proof -
  from assms(1) have n: "n \<noteq> 0" by (cases "n = 0") simp_all
  have a: "n < 2 ^ bitLength n" by (rule bitLength_less)
  have b: "2 ^ (bitLength n - 1) \<le> n" using n by (rule bitLength_ge)
  from assms(1) a have "(2::nat) ^ k < 2 ^ bitLength n" by linarith
  then have "k < bitLength n" by (rule power_less_imp_less_exp [rotated]) simp
  moreover from b assms(2) have "(2::nat) ^ (bitLength n - 1) < 2 ^ Suc k" by linarith
  then have "bitLength n - 1 < Suc k" by (rule power_less_imp_less_exp [rotated]) simp
  ultimately show ?thesis by linarith
qed

lemma roundToEven_small: "n < 2 ^ 53 \<Longrightarrow> roundToEven n = n"
  by (simp add: roundToEven_def)

lemma roundToEven_fix:
  assumes "2 ^ 52 \<le> q" and "q \<le> 2 ^ 53" and "1 \<le> e"
  shows "roundToEven (q * 2 ^ e) = q * 2 ^ e"
proof -
  let ?m = "q * 2 ^ e"
  have big: "\<not> ?m < 2 ^ 53"
  proof -
    have "(2::nat) ^ 53 = 2 ^ 52 * 2 ^ 1" by simp
    also have "\<dots> \<le> q * 2 ^ e"
      using assms(1,3) by (intro mult_le_mono power_increasing) simp_all
    finally show ?thesis by simp
  qed
  show ?thesis
  proof (cases "q = 2 ^ 53")
    case True
    then have m: "?m = 2 ^ (53 + e)" by (simp add: power_add)
    then have "bitLength ?m = Suc (53 + e)" by (intro bitLength_eq) simp_all
    then have e: "bitLength ?m - 53 = Suc e" by simp
    have m': "?m = 2 ^ 52 * 2 ^ Suc e" unfolding True by simp
    have d: "?m div 2 ^ Suc e = 2 ^ 52" unfolding m' by (rule div_mult_self_is_m) simp
    have r: "?m mod 2 ^ Suc e = 0" unfolding m' by (rule mod_mult_self2_is_0)
    have "roundToEven ?m = 2 ^ 52 * 2 ^ Suc e"
      unfolding roundToEven_def Let_def e d r using big by simp
    then show ?thesis unfolding m' .
  next
    case False
    with assms(2) have lt: "q < 2 ^ 53" by simp
    have lo: "2 ^ (52 + e) \<le> ?m" using assms(1) by (simp add: power_add)
    have hi: "?m < 2 ^ Suc (52 + e)" using lt by (simp add: power_add)
    from lo hi have "bitLength ?m = Suc (52 + e)" by (rule bitLength_eq)
    then have e: "bitLength ?m - 53 = e" by simp
    show ?thesis
      unfolding roundToEven_def Let_def e using big by simp
  qed
qed

lemma roundToEven_shape:
  assumes "\<not> n < 2 ^ 53"
  shows "\<exists>q e. roundToEven n = q * 2 ^ e \<and> 2 ^ 52 \<le> q \<and> q \<le> 2 ^ 53 \<and> 1 \<le> e"
proof -
  let ?B = "bitLength n" let ?e = "bitLength n - 53" let ?q = "n div 2 ^ ?e"
  from assms have n0: "n \<noteq> 0" by (cases "n = 0") simp_all
  have a: "n < 2 ^ ?B" by (rule bitLength_less)
  have b: "2 ^ (?B - 1) \<le> n" using n0 by (rule bitLength_ge)
  from assms a have "(2::nat) ^ 53 < 2 ^ ?B" by linarith
  then have B: "53 < ?B" by (rule power_less_imp_less_exp [rotated]) simp
  then have e1: "1 \<le> ?e" by simp
  have B1: "?B - 1 = 52 + ?e" and B2: "?B = 53 + ?e" using B by simp_all
  have "n < 2 ^ 53 * 2 ^ ?e" using a B2 by (metis power_add)
  then have q2: "?q < 2 ^ 53" by (simp add: less_mult_imp_div_less)
  have "2 ^ 52 * 2 ^ ?e \<le> n" using b B1 by (metis power_add)
  then have q1: "2 ^ 52 \<le> ?q" by (simp add: less_eq_div_iff_mult_less_eq)
  let ?q' = "if 2 ^ ?e < 2 * (n mod 2 ^ ?e) \<or> (2 * (n mod 2 ^ ?e) = 2 ^ ?e \<and> odd ?q) then ?q + 1 else ?q"
  have r: "roundToEven n = ?q' * 2 ^ ?e" using assms by (simp add: roundToEven_def Let_def)
  have "2 ^ 52 \<le> ?q' \<and> ?q' \<le> 2 ^ 53" using q1 q2 by auto
  with r e1 show ?thesis by blast
qed

lemma roundToEven_idem: "roundToEven (roundToEven n) = roundToEven n"
proof (cases "n < 2 ^ 53")
  case True
  then show ?thesis by (simp add: roundToEven_small)
next
  case False
  from roundToEven_shape [OF this] obtain q e where
    "roundToEven n = q * 2 ^ e" "2 ^ 52 \<le> q" "q \<le> 2 ^ 53" "1 \<le> e" by blast
  then show ?thesis by (simp add: roundToEven_fix)
qed

lemma roundToEven_bits:
  assumes "2 ^ (52 + e) \<le> n" and "n < 2 ^ (53 + e)" and "1 \<le> e"
  shows "roundToEven n =
           (if 2 ^ e < 2 * (n mod 2 ^ e) \<or> (2 * (n mod 2 ^ e) = 2 ^ e \<and> odd (n div 2 ^ e))
            then n div 2 ^ e + 1 else n div 2 ^ e) * 2 ^ e"
proof -
  from assms(1,2) have "bitLength n = Suc (52 + e)" by (intro bitLength_eq) simp_all
  then have e: "bitLength n - 53 = e" by simp
  have "(2::nat) ^ 53 \<le> 2 ^ (52 + e)" using assms(3) by (intro power_increasing) simp_all
  with assms(1) have "\<not> n < 2 ^ 53" by simp
  then show ?thesis by (simp add: roundToEven_def Let_def e)
qed

lemma roundToEven_pos: "0 < n \<Longrightarrow> 0 < roundToEven n"
proof (cases "n < 2 ^ 53")
  case True
  assume "0 < n"
  with True show ?thesis by (simp add: roundToEven_small)
next
  case False
  from roundToEven_shape [OF this] obtain q e where
    "roundToEven n = q * 2 ^ e" "2 ^ 52 \<le> q" by blast
  then show ?thesis by (cases "q = 0") simp_all
qed


lemma toNumber_nat:
  "toNumber (int n) = (if 2 ^ 1024 \<le> roundToEven n then PosInfinity else Num (int (roundToEven n)))"
  by (simp add: toNumber_def Let_def)

lemma toNumber_idem: "toNumber (int n) = Num i \<Longrightarrow> toNumber i = Num i"
  by (auto simp: toNumber_nat roundToEven_idem split: if_splits)

lemma toNumber_nonneg: "toNumber (int n) = Num i \<Longrightarrow> 0 \<le> i"
  by (auto simp: toNumber_nat split: if_splits)

lemma toNumber_zero: "toNumber (int n) = Num 0 \<longleftrightarrow> n = 0"
proof (cases "n = 0")
  case True
  then show ?thesis by (simp add: toNumber_def roundToEven_small)
next
  case False
  then have "0 < roundToEven n" by (simp add: roundToEven_pos)
  with False show ?thesis by (simp add: toNumber_nat)
qed

lemma toNumber_cases:
  "toNumber (int n) = PosInfinity \<or> (\<exists>m. toNumber (int n) = Num (int m))"
  by (simp add: toNumber_nat)

lemma toNumber_small: "0 \<le> i \<Longrightarrow> i < 2 ^ 53 \<Longrightarrow> toNumber i = Num i"
  by (simp add: toNumber_def Let_def roundToEven_small nat_less_iff)

lemma shortestDecimal_reads_back:
  "toNumber (int (shortestDecimal v z)) = toNumber (int v)"
  by (induction z) (simp_all add: Let_def)

lemma digitsOf_range: "c \<in> set (digitsOf n) \<Longrightarrow> 48 \<le> c \<and> c \<le> 57"
proof (induction n rule: digitsOf.induct)
  case (1 n)
  show ?case
  proof (cases "n < 10")
    case True
    with 1(2) show ?thesis by (simp add: digitsOf.simps [of n])
  next
    case False
    with 1 show ?thesis by (auto simp: digitsOf.simps [of n])
  qed
qed

lemma digitsOf_nonempty: "digitsOf n \<noteq> []"
  by (simp add: digitsOf.simps [of n])

lemma parseDigits_snoc: "parseDigits acc (xs @ [d]) = 10 * parseDigits acc xs + (d - 48)"
  by (induction xs arbitrary: acc) simp_all

lemma parseDigits_digitsOf: "parseDigits 0 (digitsOf n) = n"
proof (induction n rule: digitsOf.induct)
  case (1 n)
  show ?case
  proof (cases "n < 10")
    case True
    then show ?thesis by (simp add: digitsOf.simps [of n])
  next
    case False
    with 1 have "parseDigits 0 (digitsOf (n div 10)) = n div 10" by simp
    with False show ?thesis
      by (simp add: digitsOf.simps [of n] parseDigits_snoc)
  qed
qed

lemma digitsOf_inj: "digitsOf a = digitsOf b \<Longrightarrow> a = b"
  by (metis parseDigits_digitsOf)

lemma mantissa_inj: "mantissa a = mantissa b \<Longrightarrow> a = b"
  by (auto simp: mantissa_def split: list.splits if_splits)

lemma set_mantissa: "c \<in> set (mantissa a) \<Longrightarrow> c = 46 \<or> c \<in> set a"
  by (auto simp: mantissa_def split: list.splits if_splits)

lemma split_first:
  fixes a b a' b' :: "nat list"
  assumes "c \<notin> set a" and "c \<notin> set a'" and "a @ c # b = a' @ c # b'"
  shows "a = a' \<and> b = b'"
proof -
  have t: "takeWhile (\<lambda>x. x \<noteq> c) (x @ c # y) = x" if "c \<notin> set x" for x y :: "nat list"
    using that by (auto simp: takeWhile_tail)
  from assms(1) have "takeWhile (\<lambda>x. x \<noteq> c) (a @ c # b) = a" by (rule t)
  moreover from assms(2) have "takeWhile (\<lambda>x. x \<noteq> c) (a' @ c # b') = a'" by (rule t)
  ultimately have "a = a'" using assms(3) by simp
  with assms(3) show ?thesis by simp
qed

lemma significant_zeros: "ds = significant ds @ replicate (length ds - length (significant ds)) 48"
proof -
  let ?t = "takeWhile (\<lambda>d. d = 48) (rev ds)"
  have "rev ds = ?t @ dropWhile (\<lambda>d. d = 48) (rev ds)" by simp
  then have "ds = significant ds @ rev ?t"
    unfolding significant_def by (metis rev_append rev_rev_ident)
  moreover have "?t = replicate (length ?t) 48"
    by (rule replicate_length_same [symmetric]) (auto dest: set_takeWhileD)
  then have "rev ?t = replicate (length ?t) 48" by (metis rev_replicate)
  moreover have "length ?t = length ds - length (significant ds)"
    unfolding significant_def using length_append [of ?t "dropWhile (\<lambda>d. d = 48) (rev ds)"]
    by simp
  ultimately show ?thesis by simp
qed

lemma set_significant: "c \<in> set (significant ds) \<Longrightarrow> c \<in> set ds"
  unfolding significant_def by (auto dest: set_dropWhileD)

lemma mantissa_chars:
  "c \<in> set (mantissa (significant (digitsOf n))) \<Longrightarrow> (48 \<le> c \<and> c \<le> 57) \<or> c = 46"
  using set_mantissa [of c "significant (digitsOf n)"] set_significant [of c "digitsOf n"]
    digitsOf_range [of c n] by blast

lemma expForm_inj:
  assumes "expForm a = expForm b"
  shows "a = b"
proof -
  let ?A = "digitsOf a" and ?B = "digitsOf b"
  have na: "101 \<notin> set (mantissa (significant ?A))"
    using mantissa_chars [of 101 a] by auto
  have nb: "101 \<notin> set (mantissa (significant ?B))"
    using mantissa_chars [of 101 b] by auto
  from assms have "mantissa (significant ?A) @ 101 # (43 # digitsOf (length ?A - 1)) =
      mantissa (significant ?B) @ 101 # (43 # digitsOf (length ?B - 1))"
    by (simp add: expForm_def Let_def)
  from split_first [OF na nb this]
  have m: "mantissa (significant ?A) = mantissa (significant ?B)"
    and e: "digitsOf (length ?A - 1) = digitsOf (length ?B - 1)" by simp_all
  from m have s: "significant ?A = significant ?B" by (rule mantissa_inj)
  from e have "length ?A - 1 = length ?B - 1" by (rule digitsOf_inj)
  moreover have "length ?A \<noteq> 0" "length ?B \<noteq> 0" by (simp_all add: digitsOf_nonempty)
  ultimately have l: "length ?A = length ?B" by linarith
  have "?A = significant ?A @ replicate (length ?A - length (significant ?A)) 48"
    by (rule significant_zeros)
  also have "\<dots> = significant ?B @ replicate (length ?B - length (significant ?B)) 48"
    unfolding s l ..
  also have "\<dots> = ?B" by (rule significant_zeros [symmetric])
  finally show ?thesis by (rule digitsOf_inj)
qed

lemma expForm_has_e: "101 \<in> set (expForm c)"
  by (simp add: expForm_def Let_def)

lemma decimalString_inj:
  assumes "decimalString a = decimalString b"
  shows "a = b"
proof -
  have ne: "digitsOf x \<noteq> expForm y" for x y
    using digitsOf_range [of 101 x] expForm_has_e [of y] by force
  show ?thesis
  proof (cases "length (digitsOf a) \<le> 21")
    case a: True
    show ?thesis
    proof (cases "length (digitsOf b) \<le> 21")
      case True
      with a assms show ?thesis by (simp add: decimalString_def digitsOf_inj)
    next
      case False
      with a assms ne [of a b] show ?thesis by (simp add: decimalString_def)
    qed
  next
    case a: False
    show ?thesis
    proof (cases "length (digitsOf b) \<le> 21")
      case True
      with a assms ne [of b a] show ?thesis by (simp add: decimalString_def)
    next
      case False
      with a assms show ?thesis by (simp add: decimalString_def expForm_inj)
    qed
  qed
qed

lemma decimalString_chars:
  "c \<in> set (decimalString n) \<Longrightarrow> (48 \<le> c \<and> c \<le> 57) \<or> c = 46 \<or> c = 101 \<or> c = 43"
proof -
  assume c: "c \<in> set (decimalString n)"
  show ?thesis
  proof (cases "length (digitsOf n) \<le> 21")
    case True
    with c show ?thesis using digitsOf_range [of c n] by (simp add: decimalString_def)
  next
    case False
    with c have "c \<in> set (mantissa (significant (digitsOf n))) \<or> c = 101 \<or> c = 43 \<or>
        c \<in> set (digitsOf (length (digitsOf n) - 1))"
      by (auto simp: decimalString_def expForm_def Let_def)
    then show ?thesis
      using mantissa_chars [of c n] digitsOf_range [of c "length (digitsOf n) - 1"]
      by blast
  qed
qed

lemma decimalString_zero: "decimalString c = [48] \<Longrightarrow> c = 0"
proof -
  assume a: "decimalString c = [48]"
  have "decimalString 0 = [48]" by (simp add: decimalString_def digitsOf.simps [of 0])
  with a show ?thesis by (simp add: decimalString_inj)
qed

lemma numToString_nonneg:
  "0 \<le> i \<Longrightarrow>
   numToString (Num i) = decimalString (shortestDecimal (nat i) (length (digitsOf (nat i)) - 1))"
proof (cases "i = 0")
  case True
  then show ?thesis by (simp add: decimalString_def digitsOf.simps [of 0])
next
  case False
  assume "0 \<le> i"
  with False show ?thesis by (simp add: posToString_def)
qed

lemma numToString_nat_chars:
  assumes "c \<in> set (numToString (toNumber (int n)))"
  shows "(48 \<le> c \<and> c \<le> 57) \<or> c = 46 \<or> c = 101 \<or> c = 43 \<or> c \<in> set (asc ''Infinity'')"
proof (cases "toNumber (int n)")
  case (Num i)
  from Num have "0 \<le> i" by (rule toNumber_nonneg)
  then have "numToString (Num i) =
      decimalString (shortestDecimal (nat i) (length (digitsOf (nat i)) - 1))"
    by (rule numToString_nonneg)
  with assms Num have "c \<in> set (decimalString (shortestDecimal (nat i) (length (digitsOf (nat i)) - 1)))"
    by simp
  from decimalString_chars [OF this] show ?thesis by blast
next
  case PosInfinity
  with assms show ?thesis by simp
next
  case NegInfinity
  with toNumber_cases [of n] show ?thesis by simp
next
  case NaN
  with toNumber_cases [of n] show ?thesis by simp
qed

lemma numToString_nat_inj:
  assumes "numToString (toNumber (int a)) = numToString (toNumber (int b))"
  shows "toNumber (int a) = toNumber (int b)"
proof -
  have sd: "numToString (Num (int m)) =
      decimalString (shortestDecimal m (length (digitsOf m) - 1))" for m
    using numToString_nonneg [of "int m"] by simp
  have inf: "toNumber (int n) = PosInfinity"
    if e: "numToString (toNumber (int n)) = numToString PosInfinity" for n
  proof (rule ccontr)
    assume "toNumber (int n) \<noteq> PosInfinity"
    with toNumber_cases [of n] obtain m where m: "toNumber (int n) = Num (int m)" by blast
    have "73 \<in> set (numToString PosInfinity)" by (simp add: asc_def)
    with e m have "73 \<in> set (decimalString (shortestDecimal m (length (digitsOf m) - 1)))"
      by (simp only: sd)
    from decimalString_chars [OF this] show False by simp
  qed
  show ?thesis
  proof (cases "toNumber (int a) = PosInfinity")
    case True
    from assms have "numToString (toNumber (int b)) = numToString PosInfinity"
      unfolding True by (rule sym)
    then have "toNumber (int b) = PosInfinity" by (rule inf)
    with True show ?thesis by simp
  next
    case na: False
    show ?thesis
    proof (cases "toNumber (int b) = PosInfinity")
      case True
      from assms have "numToString (toNumber (int a)) = numToString PosInfinity"
        unfolding True .
      then have "toNumber (int a) = PosInfinity" by (rule inf)
      with na show ?thesis by contradiction
    next
      case nb: False
      from na toNumber_cases [of a] obtain x where x: "toNumber (int a) = Num (int x)" by blast
      from nb toNumber_cases [of b] obtain y where y: "toNumber (int b) = Num (int y)" by blast
      let ?cx = "shortestDecimal x (length (digitsOf x) - 1)"
      let ?cy = "shortestDecimal y (length (digitsOf y) - 1)"
      have rx: "toNumber (int ?cx) = Num (int x)"
        using shortestDecimal_reads_back [of x] toNumber_idem [OF x] by simp
      have ry: "toNumber (int ?cy) = Num (int y)"
        using shortestDecimal_reads_back [of y] toNumber_idem [OF y] by simp
      from assms have "decimalString ?cx = decimalString ?cy" unfolding x y sd .
      then have "?cx = ?cy" by (rule decimalString_inj)
      then have "toNumber (int ?cx) = toNumber (int ?cy)" by (rule arg_cong)
      then have "Num (int x) = Num (int y)" unfolding rx ry .
      then show ?thesis unfolding x y .
    qed
  qed
qed


lemma toNumber_not_NaN: "toNumber d \<noteq> NaN"
  by (simp add: toNumber_def Let_def)

lemma roundToEven_0: "roundToEven 0 = 0"
  by (simp add: roundToEven_small)

lemma toNumber_0: "toNumber 0 = Num 0"
  by (simp add: toNumber_def roundToEven_0)

lemma jsGreater_toNumber: "jsGreater (toNumber d) (Num 0) \<longleftrightarrow> 0 < d"
proof (cases "d = 0")
  case True
  then show ?thesis by (simp add: toNumber_0)
next
  case False
  then have "0 < nat \<bar>d\<bar>" by simp
  then have m: "0 < roundToEven (nat \<bar>d\<bar>)" by (rule roundToEven_pos)
  show ?thesis
  proof (cases "d < 0")
    case True
    with m show ?thesis by (simp add: toNumber_def Let_def)
  next
    case False
    with \<open>d \<noteq> 0\<close> have "0 < d" by simp
    with m show ?thesis by (simp add: toNumber_def Let_def)
  qed
qed

lemma numToString_chars:
  assumes "c \<in> set (numToString x)"
  shows "(48 \<le> c \<and> c \<le> 57) \<or> c = 43 \<or> c = 45 \<or> c = 46 \<or> c = 101 \<or>
         c \<in> set (asc ''Infinity'') \<or> c \<in> set (asc ''NaN'')"
proof (cases x)
  case (Num i)
  show ?thesis
  proof (cases "i = 0")
    case True
    with assms Num show ?thesis by simp
  next
    case False
    with assms Num have "c = 45 \<or> c \<in> set (decimalString
        (shortestDecimal (nat \<bar>i\<bar>) (length (digitsOf (nat \<bar>i\<bar>)) - 1)))"
      by (cases "i < 0") (simp_all add: posToString_def)
    with decimalString_chars [of c] show ?thesis by blast
  qed
next
  case PosInfinity
  with assms show ?thesis by simp
next
  case NegInfinity
  with assms show ?thesis by (auto simp: asc_def)
next
  case NaN
  with assms show ?thesis by simp
qed

lemma numToString_plain: "c \<in> set (numToString x) \<Longrightarrow> c \<noteq> 10 \<and> c \<noteq> 60 \<and> c \<noteq> 93"
  using numToString_chars [of c x] by (auto simp: asc_def)

lemma numToString_no_dash: "45 \<notin> set (numToString (toNumber (int n)))"
  using numToString_nat_chars [of 45 n] by (auto simp: asc_def)

lemma ofNat_small: "n < 2 ^ 53 \<Longrightarrow> ofNat n = Num (int n)"
  by (simp add: ofNat_def toNumber_small)

declare numToString.simps [simp del]

section \<open>Evaluating the model\<close>

lemmas rx_defs = matchAt_def advance_def exec_def test_def replaceFirst_def replaceAll_def
  Let_def isWhiteSpace_def isLineTerminator_def isDigit_def canonicalize_def

lemmas str_defs = asc_def trim_def trimStart_def trimEnd_def startsWith_def toUpperCase_def
  parseInt_def

lemmas line_defs = reviewLines_def keepLine_def thinkRegex_def lineLabelRegex_def
  bulletRegex_def

lemmas item_defs = reviewStep_def reviewKey_def itemOfFinding_def newReviewItem_def
  displayText_def positionSuffix_def truthy_def orZero_def sortBy_def compareItems_def
  sortCompare_def

lemma numToString_small:
  "numToString (Num 0) = [48]" "numToString (Num 4) = [52]" "numToString (Num 12) = [49, 50]"
  by (simp_all add: numToString.simps posToString_def decimalString_def digitsOf.simps Let_def
        toNumber_small)

text \<open>
  Beyond \<open>2^53\<close>: digits that denote no double are read as the nearest double, a number
  is printed from its shortest decimal, in exponent notation from \<open>10^21\<close> on, and a number
  of more than 308 digits is infinite.
\<close>

lemma parseInt_rounds:
  "parseInt (asc ''9007199254740993'') = Num 9007199254740992"
  "parseInt (asc ''9007199254740992'') = Num 9007199254740992"
  "parseInt (asc ''9007199254740995'') = Num 9007199254740996"
  by (simp_all add: parseInt_def asc_def toNumber_def Let_def roundToEven_bits [of 1])

lemma numToString_large:
  "numToString (Num 9007199254740992) = asc ''9007199254740992''"
  by (simp add: numToString.simps posToString_def decimalString_def digitsOf.simps Let_def
        toNumber_def roundToEven_bits [of 1] roundToEven_small asc_def)

lemma numToString_exp:
  "numToString (toNumber 1000000000000000000000) = asc ''1e+21''"
  by (simp add: numToString.simps posToString_def decimalString_def digitsOf.simps Let_def
        toNumber_def roundToEven_bits [of 17] roundToEven_bits [of 18] asc_def expForm_def significant_def mantissa_def)

lemma toNumber_infinite: "toNumber (10 ^ 309) = PosInfinity"
  by (simp add: toNumber_def Let_def roundToEven_bits [of 974])


section \<open>The freeform scenario\<close>

lemma scenario_lines:
  "reviewLines (asc ''[ERROR] null pointer risk in getUser [Ln 12, Col 4]'' @ [10] @
                asc ''[HINT]: rename variable x'') =
     [asc ''[ERROR] null pointer risk in getUser [Ln 12, Col 4]'',
      asc ''[HINT]: rename variable x'']"
  by (simp add: line_defs rx_defs str_defs)

lemma scenario_findings:
  "map findingOfLine
     [asc ''[ERROR] null pointer risk in getUser [Ln 12, Col 4]'',
      asc ''[HINT]: rename variable x''] =
     [Some \<lparr>fSeverity = Error, content = asc ''null pointer risk in getUser'',
            fLine = Some (Num 12), fCol = Some (Num 4)\<rparr>,
      Some \<lparr>fSeverity = Hint, content = asc ''rename variable x'',
            fLine = None, fCol = None\<rparr>]"
  by (simp add: findingOfLine_def severityRegex_def rx_defs str_defs severityOfText_def
        toNumber_small)

lemma scenario_items:
  "parseReviewItems (asc ''[ERROR] null pointer risk in getUser [Ln 12, Col 4]'' @ [10] @
                     asc ''[HINT]: rename variable x'') uri =
     [\<lparr>label = [91, 12456, 12521, 12540, 93, 32] @ asc ''null pointer risk in getUser'' @
               [32, 40, 34892, 32] @ asc ''12'' @ [44, 32, 21015, 32] @ asc ''4'' @ [41],
       resourceUri = Some uri, severity = Some Error, lineNumber = Some (Num 12),
       colNumber = Some (Num 4),
       command = Some \<lparr>startLine = Num 11, startCharacter = Num 4, endLine = Num 11,
                        endCharacter = Num 5\<rparr>\<rparr>,
      \<lparr>label = [91, 12498, 12531, 12488, 93, 32] @ asc ''rename variable x'',
       resourceUri = Some uri, severity = Some Hint, lineNumber = None, colNumber = None,
       command = None\<rparr>]"
  using scenario_findings
  unfolding parseReviewItems_def collectReviewItems_def scenario_lines
  by (simp add: item_defs numToString_small toNumber_small asc_def)

lemma scenario_diagnostics:
  "map diagnosticPlace
     (diagnosticLines (asc ''[ERROR] null pointer risk in getUser [Ln 12, Col 4]'' @ [10] @
                       asc ''[HINT]: rename variable x'')) =
     [Some (Num 11, Num 4), Some (Num 0, Num 0)]"
  by (simp add: diagnosticLines_def diagnosticPlace_def severityRegex_def rx_defs str_defs
        toNumber_small)

text \<open>
  C1. The text \<^verbatim>\<open>[ERROR] null pointer risk in getUser [Ln 12, Col 4]\<close>, a line feed,
  \<^verbatim>\<open>[HINT]: rename variable x\<close> gives exactly two findings. The first has severity Error, the
  message \<^verbatim>\<open>null pointer risk in getUser\<close>, the numbers 12 and 4 read from the text, and its
  item points to line 11, column 4 (the line made zero-based). The second has severity
  Hint, the message \<^verbatim>\<open>rename variable x\<close>, and no position. The diagnostics are placed at
  line 11, column 4 and, for want of a position, at line 0, column 0.
\<close>

theorem C1_freeform_scenario:
  "map findingOfLine
     (reviewLines (asc ''[ERROR] null pointer risk in getUser [Ln 12, Col 4]'' @ [10] @
                   asc ''[HINT]: rename variable x'')) =
     [Some \<lparr>fSeverity = Error, content = asc ''null pointer risk in getUser'',
            fLine = Some (Num 12), fCol = Some (Num 4)\<rparr>,
      Some \<lparr>fSeverity = Hint, content = asc ''rename variable x'',
            fLine = None, fCol = None\<rparr>] \<and>
   parseReviewItems (asc ''[ERROR] null pointer risk in getUser [Ln 12, Col 4]'' @ [10] @
                     asc ''[HINT]: rename variable x'') uri =
     [itemOfFinding uri \<lparr>fSeverity = Error, content = asc ''null pointer risk in getUser'',
                         fLine = Some (Num 12), fCol = Some (Num 4)\<rparr>,
      itemOfFinding uri \<lparr>fSeverity = Hint, content = asc ''rename variable x'',
                         fLine = None, fCol = None\<rparr>] \<and>
   map severity
     (parseReviewItems (asc ''[ERROR] null pointer risk in getUser [Ln 12, Col 4]'' @ [10] @
                        asc ''[HINT]: rename variable x'') uri) =
     [Some Error, Some Hint] \<and>
   map itemPosition
     (parseReviewItems (asc ''[ERROR] null pointer risk in getUser [Ln 12, Col 4]'' @ [10] @
                        asc ''[HINT]: rename variable x'') uri) =
     [Some (Num 11, Num 4), None] \<and>
   map diagnosticPlace
     (diagnosticLines (asc ''[ERROR] null pointer risk in getUser [Ln 12, Col 4]'' @ [10] @
                       asc ''[HINT]: rename variable x'')) =
     [Some (Num 11, Num 4), Some (Num 0, Num 0)]"
  unfolding scenario_items scenario_lines scenario_findings scenario_diagnostics
  by (simp add: itemPosition_def itemOfFinding_def newReviewItem_def displayText_def
        positionSuffix_def truthy_def orZero_def numToString_small toNumber_small asc_def)

section \<open>The structured scenario\<close>

lemma items_fire [simp]: "reviewItemsByFile (fire p) = reviewItemsByFile p"
  by (simp add: fire_def)

lemma items_updateBadge [simp]: "reviewItemsByFile (updateBadge p) = reviewItemsByFile p"
  by (simp add: updateBadge_def split: option.split)

lemma items_update:
  "reviewItemsByFile (update u t p) =
     AList.update u (parseReviewItems t u) (reviewItemsByFile p)"
  by (simp add: update_def)

lemma entry_update: "map_of (reviewItemsByFile (update u t p)) u = Some (parseReviewItems t u)"
  by (simp add: items_update update_conv')

lemma structured_text:
  "formatFunctionCallResults
     (Some [\<lparr>entrySeverity = asc ''warning'', message = asc ''m'', codeSnippet = None\<rparr>,
            \<lparr>entrySeverity = asc ''warning'', message = asc ''m'', codeSnippet = None\<rparr>])
     docText =
   asc ''[warning]m'' @ [10] @ asc ''[warning]m''"
  by (simp add: formatFunctionCallResults_def formatReview_def findPositionByCodeSnippet_def
        asc_def)

lemma structured_lines:
  "reviewLines (asc ''[warning]m'' @ [10] @ asc ''[warning]m'') =
     [asc ''[warning]m'', asc ''[warning]m'']"
  by (simp add: line_defs rx_defs str_defs)

lemma structured_finding:
  "findingOfLine (asc ''[warning]m'') =
     Some \<lparr>fSeverity = Warning, content = asc ''m'', fLine = None, fCol = None\<rparr>"
  by (simp add: findingOfLine_def severityRegex_def rx_defs str_defs severityOfText_def)

lemma structured_items:
  "parseReviewItems (asc ''[warning]m'' @ [10] @ asc ''[warning]m'') uri =
     [itemOfFinding uri \<lparr>fSeverity = Warning, content = asc ''m'', fLine = None, fCol = None\<rparr>]"
  unfolding parseReviewItems_def collectReviewItems_def structured_lines
  by (simp add: reviewStep_def structured_finding sortBy_def)

text \<open>
  C7. The payload with the two equal entries \<^verbatim>\<open>{severity: "warning", message: "m"}\<close> is
  formatted as the two lines \<^verbatim>\<open>[warning]m\<close>; the tree keeps exactly one item for them,
  with severity Warning and the message \<^verbatim>\<open>m\<close>: the second line has the key of the
  first.
\<close>

theorem C7_structured_duplicates:
  "formatFunctionCallResults
     (Some [\<lparr>entrySeverity = asc ''warning'', message = asc ''m'', codeSnippet = None\<rparr>,
            \<lparr>entrySeverity = asc ''warning'', message = asc ''m'', codeSnippet = None\<rparr>])
     docText =
     asc ''[warning]m'' @ [10] @ asc ''[warning]m'' \<and>
   map_of (reviewItemsByFile
     (lintDocument
        (Some (Some [\<lparr>entrySeverity = asc ''warning'', message = asc ''m'', codeSnippet = None\<rparr>,
                     \<lparr>entrySeverity = asc ''warning'', message = asc ''m'', codeSnippet = None\<rparr>]))
        uri docText p)) uri =
     Some [itemOfFinding uri
             \<lparr>fSeverity = Warning, content = asc ''m'', fLine = None, fCol = None\<rparr>] \<and>
   length (parseReviewItems
     (formatFunctionCallResults
        (Some [\<lparr>entrySeverity = asc ''warning'', message = asc ''m'', codeSnippet = None\<rparr>,
               \<lparr>entrySeverity = asc ''warning'', message = asc ''m'', codeSnippet = None\<rparr>])
        docText)
     uri) = 1"
  unfolding lintDocument_def requestLLMReviewWithFunctionCalling_def option.case entry_update structured_text
    structured_items
  by simp


section \<open>The result store\<close>

lemma fired_updateBadge [simp]: "fired (updateBadge p) = fired p"
  by (simp add: updateBadge_def split: option.split)

lemma fired_update: "fired (update u t p) = fired p @ [reviewItemsByFile (update u t p)]"
  by (simp add: update_def fire_def)

lemma other_update:
  "v \<noteq> u \<Longrightarrow> map_of (reviewItemsByFile (update u t p)) v = map_of (reviewItemsByFile p) v"
  by (simp add: items_update update_conv')

lemma items_update_twice:
  "reviewItemsByFile (update u t (update u t p)) = reviewItemsByFile (update u t p)"
  by (simp add: items_update)

lemma view_update:
  "treeView (update u t p) =
     map_option (\<lambda>v. v\<lparr>badge := badgeOf (totalReviewCount (reviewItemsByFile (update u t p)))\<rparr>)
       (treeView p)"
  by (simp add: update_def fire_def updateBadge_def split: option.split)

lemma view_update_twice:
  "treeView (update u t (update u t p)) = treeView (update u t p)"
  by (simp add: view_update items_update_twice option.map_comp comp_def)

text \<open>
  C8. \<^verbatim>\<open>update(uri, text)\<close> sets the entry of \<open>uri\<close> to the items parsed from \<open>text\<close>,
  whatever the entry was, and leaves every other entry as it was; it fires once, and the
  listeners see the map with the new entry in it. Updating twice with the same URI and
  text leaves the map and the tree view as one update does, and fires twice.
\<close>

theorem C8_update_replaces_and_notifies:
  "map_of (reviewItemsByFile (update u t p)) u = Some (parseReviewItems t u) \<and>
   (\<forall>v. v \<noteq> u \<longrightarrow>
      map_of (reviewItemsByFile (update u t p)) v = map_of (reviewItemsByFile p) v) \<and>
   fired (update u t p) = fired p @ [reviewItemsByFile (update u t p)] \<and>
   reviewItemsByFile (update u t (update u t p)) = reviewItemsByFile (update u t p) \<and>
   treeView (update u t (update u t p)) = treeView (update u t p) \<and>
   fired (update u t (update u t p)) =
     fired p @ [reviewItemsByFile (update u t p), reviewItemsByFile (update u t p)] \<and>
   length (fired (update u t (update u t p))) = length (fired p) + 2"
  using entry_update [of u t p] other_update [of _ u t p] fired_update [of u t p]
    fired_update [of u t "update u t p"] items_update_twice [of u t p]
    view_update_twice [of u t p]
  by simp

theorem C8_witness:
  "asc ''b'' \<noteq> asc ''a'' \<and>
   map_of (reviewItemsByFile (update (asc ''a'') (asc ''[INFO] x'') activated)) (asc ''b'') = None \<and>
   length (fired (update (asc ''a'') (asc ''[INFO] x'')
                    (update (asc ''a'') (asc ''[INFO] x'') activated))) = 2"
proof -
  have ne: "asc ''b'' \<noteq> asc ''a''" by (simp add: asc_def)
  note c8 = C8_update_replaces_and_notifies [of "asc ''a''" "asc ''[INFO] x''" activated]
  from c8 ne have "map_of (reviewItemsByFile (update (asc ''a'') (asc ''[INFO] x'') activated)) (asc ''b'')
      = map_of (reviewItemsByFile activated) (asc ''b'')" by blast
  moreover have "map_of (reviewItemsByFile activated) (asc ''b'') = None"
    by (simp add: activated_def setTreeView_def newProvider_def)
  moreover from c8 have "length (fired (update (asc ''a'') (asc ''[INFO] x'')
                    (update (asc ''a'') (asc ''[INFO] x'') activated))) = length (fired activated) + 2"
    by blast
  moreover have "fired activated = []" by (simp add: activated_def setTreeView_def newProvider_def)
  ultimately show ?thesis using ne by simp
qed

lemma total_sum:
  "distinct (map fst al) \<Longrightarrow>
   totalReviewCount al = (\<Sum>u\<in>dom (map_of al). length (the (map_of al u)))"
proof (induction al)
  case Nil
  then show ?case by (simp add: totalReviewCount_def)
next
  case (Cons a al)
  obtain k v where a: "a = (k, v)" by (cases a)
  let ?f = "\<lambda>u. length (the (map_of (a # al) u))"
  from Cons.prems a have k: "k \<notin> dom (map_of al)" and d: "distinct (map fst al)"
    by (auto simp: dom_map_of_conv_image_fst)
  have same: "(\<Sum>u\<in>dom (map_of al). ?f u) = (\<Sum>u\<in>dom (map_of al). length (the (map_of al u)))"
    using k by (intro sum.cong) (auto simp: a)
  have dom: "dom (map_of (a # al)) = insert k (dom (map_of al))" by (auto simp: a)
  have fin: "finite (dom (map_of al))" by (simp add: finite_dom_map_of)
  have "(\<Sum>u\<in>dom (map_of (a # al)). ?f u) = ?f k + (\<Sum>u\<in>dom (map_of al). ?f u)"
    unfolding dom using fin k by (rule sum.insert)
  also have "?f k = length v" by (simp add: a)
  also note same
  also have "(\<Sum>u\<in>dom (map_of al). length (the (map_of al u))) = totalReviewCount al"
    using Cons.IH [OF d] by simp
  finally show ?case by (simp add: totalReviewCount_def a)
qed

lemma badgeCount_badgeOf:
  "badgeCount (p\<lparr>treeView := Some (v\<lparr>badge := badgeOf n\<rparr>)\<rparr>) = n"
  by (simp add: badgeCount_def badgeOf_def)

lemma badge_update:
  "treeView p \<noteq> None \<Longrightarrow>
   badgeCount (update u t p) = totalReviewCount (reviewItemsByFile (update u t p))"
  by (auto simp: update_def fire_def updateBadge_def badgeCount_def badgeOf_def)

lemma badge_clear:
  "treeView p \<noteq> None \<Longrightarrow> map_of (reviewItemsByFile p) u \<noteq> None \<Longrightarrow>
   badgeCount (clearFileReviews u p) = totalReviewCount (reviewItemsByFile (clearFileReviews u p))"
  by (auto simp: clearFileReviews_def fire_def updateBadge_def badgeCount_def badgeOf_def)

lemma view_clear:
  "treeView p \<noteq> None \<Longrightarrow> treeView (clearFileReviews u p) \<noteq> None"
  by (auto simp: clearFileReviews_def fire_def updateBadge_def)

lemma items_clear:
  "reviewItemsByFile (clearFileReviews u p) = AList.delete u (reviewItemsByFile p)"
  by (auto simp: clearFileReviews_def map_of_eq_None_iff delete_id)

lemma runOps_snoc: "runOps (ops @ [x]) p = applyOp x (runOps ops p)"
  by (simp add: runOps_def)

lemma liveTexts_snoc: "liveTexts (ops @ [x]) = liveStep (liveTexts ops) x"
  by (simp add: liveTexts_def)

lemma run_invariant:
  "distinct (map fst (reviewItemsByFile (runOps ops activated))) \<and>
   map_of (reviewItemsByFile (runOps ops activated)) =
     (\<lambda>u. map_option (\<lambda>t. parseReviewItems t u) (liveTexts ops u)) \<and>
   treeView (runOps ops activated) \<noteq> None \<and>
   badgeCount (runOps ops activated) =
     totalReviewCount (reviewItemsByFile (runOps ops activated))"
proof (induction ops rule: rev_induct)
  case Nil
  show ?case
    by (simp add: runOps_def liveTexts_def activated_def setTreeView_def newProvider_def
          badgeCount_def totalReviewCount_def)
next
  case (snoc x ops)
  let ?p = "runOps ops activated"
  from snoc have d: "distinct (map fst (reviewItemsByFile ?p))"
    and m: "map_of (reviewItemsByFile ?p) =
              (\<lambda>u. map_option (\<lambda>t. parseReviewItems t u) (liveTexts ops u))"
    and v: "treeView ?p \<noteq> None"
    and b: "badgeCount ?p = totalReviewCount (reviewItemsByFile ?p)"
    by blast+
  show ?case
  proof (cases x)
    case (Update u t)
    have "map_of (reviewItemsByFile (update u t ?p)) =
            (\<lambda>w. map_option (\<lambda>t. parseReviewItems t w) (liveStep (liveTexts ops) (Update u t) w))"
      by (rule ext) (simp add: items_update update_conv' m)
    moreover have "treeView (update u t ?p) \<noteq> None"
      using v by (simp add: view_update)
    ultimately show ?thesis
      using d v by (simp add: Update runOps_snoc liveTexts_snoc items_update distinct_update
            badge_update)
  next
    case (Clear u)
    have "map_of (reviewItemsByFile (clearFileReviews u ?p)) =
            (\<lambda>w. map_option (\<lambda>t. parseReviewItems t w) (liveStep (liveTexts ops) (Clear u) w))"
      by (rule ext) (simp add: items_clear delete_conv' m)
    moreover have "badgeCount (clearFileReviews u ?p) =
            totalReviewCount (reviewItemsByFile (clearFileReviews u ?p))"
    proof (cases "map_of (reviewItemsByFile ?p) u = None")
      case True
      then show ?thesis using b by (simp add: clearFileReviews_def)
    next
      case False
      then show ?thesis using v by (simp add: badge_clear)
    qed
    ultimately show ?thesis
      using d v by (simp add: Clear runOps_snoc liveTexts_snoc items_clear distinct_delete
            view_clear)
  qed
qed

text \<open>
  C9. After any run of updates and clears from the activated extension, the count the
  badge shows is the number of items of all URIs that have been updated and not cleared
  since: the sum, over these URIs, of the length of what their last text parses to. It is
  the total over the entries of the map, and every single update, and every clear of a
  URI that has an entry, leaves the badge at that total, from any provider with a tree
  view attached.
\<close>

theorem C9_badge_is_total:
  "badgeCount (runOps ops activated) =
     (\<Sum>u\<in>dom (liveTexts ops). length (parseReviewItems (the (liveTexts ops u)) u)) \<and>
   badgeCount (runOps ops activated) =
     totalReviewCount (reviewItemsByFile (runOps ops activated)) \<and>
   map_of (reviewItemsByFile (runOps ops activated)) =
     (\<lambda>u. map_option (\<lambda>t. parseReviewItems t u) (liveTexts ops u)) \<and>
   (\<forall>u t p. treeView p \<noteq> None \<longrightarrow>
      badgeCount (update u t p) = totalReviewCount (reviewItemsByFile (update u t p))) \<and>
   (\<forall>u p. treeView p \<noteq> None \<and> map_of (reviewItemsByFile p) u \<noteq> None \<longrightarrow>
      badgeCount (clearFileReviews u p) =
        totalReviewCount (reviewItemsByFile (clearFileReviews u p)))"
proof -
  let ?p = "runOps ops activated"
  let ?al = "reviewItemsByFile ?p"
  from run_invariant [of ops] have d: "distinct (map fst ?al)"
    and m: "map_of ?al = (\<lambda>u. map_option (\<lambda>t. parseReviewItems t u) (liveTexts ops u))"
    and b: "badgeCount ?p = totalReviewCount ?al"
    by blast+
  have dom: "dom (map_of ?al) = dom (liveTexts ops)"
    by (auto simp: m dom_def)
  have "totalReviewCount ?al = (\<Sum>u\<in>dom (map_of ?al). length (the (map_of ?al u)))"
    using d by (rule total_sum)
  also have "\<dots> = (\<Sum>u\<in>dom (liveTexts ops).
                      length (parseReviewItems (the (liveTexts ops u)) u))"
    unfolding dom by (intro sum.cong) (auto simp: m)
  finally show ?thesis using b m badge_update badge_clear by auto
qed


theorem C9_witness:
  "treeView activated \<noteq> None \<and>
   badgeCount (update (asc ''a'') (asc ''[INFO] x'') activated) =
     totalReviewCount (reviewItemsByFile (update (asc ''a'') (asc ''[INFO] x'') activated)) \<and>
   map_of (reviewItemsByFile (update (asc ''a'') (asc ''[INFO] x'') activated)) (asc ''a'') \<noteq>
     None \<and>
   badgeCount (clearFileReviews (asc ''a'') (update (asc ''a'') (asc ''[INFO] x'') activated)) =
     totalReviewCount (reviewItemsByFile
       (clearFileReviews (asc ''a'') (update (asc ''a'') (asc ''[INFO] x'') activated))) \<and>
   badgeCount (runOps [Update (asc ''a'') (asc ''[INFO] x''), Clear (asc ''a'')] activated) = 0"
proof -
  note c9 = C9_badge_is_total [of "[Update (asc ''a'') (asc ''[INFO] x''), Clear (asc ''a'')]"]
  have h1: "treeView activated \<noteq> None"
    by (simp add: activated_def setTreeView_def newProvider_def)
  have h2: "treeView (update (asc ''a'') (asc ''[INFO] x'') activated) \<noteq> None"
    using h1 by (simp add: view_update)
  have h3: "map_of (reviewItemsByFile (update (asc ''a'') (asc ''[INFO] x'') activated))
              (asc ''a'') \<noteq> None"
    by (simp add: entry_update)
  from c9 h1 have "badgeCount (update (asc ''a'') (asc ''[INFO] x'') activated) =
      totalReviewCount (reviewItemsByFile (update (asc ''a'') (asc ''[INFO] x'') activated))"
    by blast
  moreover from c9 h2 h3 have
    "badgeCount (clearFileReviews (asc ''a'') (update (asc ''a'') (asc ''[INFO] x'') activated)) =
     totalReviewCount (reviewItemsByFile
       (clearFileReviews (asc ''a'') (update (asc ''a'') (asc ''[INFO] x'') activated)))"
    by blast
  moreover have "dom (liveTexts [Update (asc ''a'') (asc ''[INFO] x''), Clear (asc ''a'')]) = {}"
    by (simp add: liveTexts_def)
  with c9 have
    "badgeCount (runOps [Update (asc ''a'') (asc ''[INFO] x''), Clear (asc ''a'')] activated) = 0"
    by simp
  ultimately show ?thesis using h1 h3 by blast
qed

section \<open>The loop\<close>

lemma findingOfItem_itemOfFinding: "findingOfItem (itemOfFinding uri f) = f"
  by (simp add: findingOfItem_def itemOfFinding_def newReviewItem_def displayText_def)

lemma set_firstOccurrences: "set (firstOccurrences key xs) \<subseteq> set xs"
  by (induction key xs rule: firstOccurrences.induct) auto

lemma distinct_firstOccurrences: "distinct (map key (firstOccurrences key xs))"
proof (induction key xs rule: firstOccurrences.induct)
  case (1 key)
  then show ?case by simp
next
  case (2 key x xs)
  have "set (firstOccurrences key (filter (\<lambda>y. key y \<noteq> key x) xs)) \<subseteq>
          set (filter (\<lambda>y. key y \<noteq> key x) xs)"
    by (rule set_firstOccurrences)
  then have "key x \<notin> key ` set (firstOccurrences key (filter (\<lambda>y. key y \<noteq> key x) xs))"
    by auto
  with 2 show ?case by simp
qed

lemma foldl_reviewStep:
  "foldl (reviewStep uri) acc ls =
     foldl (\<lambda>a f. if reviewKey f \<notin> fst a
                    then (insert (reviewKey f) (fst a), snd a @ [itemOfFinding uri f]) else a)
       acc (List.map_filter findingOfLine ls)"
  by (induction ls arbitrary: acc) (auto simp: reviewStep_def List.map_filter_simps split: option.split)

lemma foldl_firsts:
  "snd (foldl (\<lambda>a f. if key f \<notin> fst a then (insert (key f) (fst a), snd a @ [mk f]) else a)
          (seen, acc) fs) =
     acc @ map mk (firstOccurrences key (filter (\<lambda>f. key f \<notin> seen) fs))"
proof (induction fs arbitrary: seen acc)
  case Nil
  then show ?case by simp
next
  case (Cons f fs)
  show ?case
  proof (cases "key f \<in> seen")
    case True
    then show ?thesis using Cons.IH [of seen acc] by simp
  next
    case False
    have "filter (\<lambda>y. key y \<noteq> key f) (filter (\<lambda>g. key g \<notin> seen) fs) =
          filter (\<lambda>g. key g \<notin> insert (key f) seen) fs"
      by (induction fs) auto
    with False show ?thesis using Cons.IH [of "insert (key f) seen" "acc @ [mk f]"] by simp
  qed
qed

lemma collect_firsts:
  "collectReviewItems text uri =
     map (itemOfFinding uri) (firstOccurrences reviewKey (matchedFindings text))"
  unfolding collectReviewItems_def matchedFindings_def foldl_reviewStep
  using foldl_firsts [of reviewKey "itemOfFinding uri" "{}" "[]"] by simp

lemma orZero_parsed: "\<exists>n. orZero (map_option parseInt g) = toNumber (int n)"
proof (cases "truthy (map_option parseInt g)")
  case True
  then obtain d where "g = Some d" by (cases g) (simp_all add: truthy_def)
  with True have "orZero (map_option parseInt g) = toNumber (int (parseDigits 0 d))"
    by (simp add: orZero_def parseInt_def)
  then show ?thesis ..
next
  case False
  then have "orZero (map_option parseInt g) = Num 0"
    by (cases g) (simp_all add: orZero_def truthy_def)
  then have "orZero (map_option parseInt g) = toNumber (int 0)" by (simp add: toNumber_0)
  then show ?thesis ..
qed

lemma finding_numbers:
  assumes "findingOfLine l = Some f"
  shows "(\<exists>n. orZero (fLine f) = toNumber (int n)) \<and> (\<exists>n. orZero (fCol f) = toNumber (int n)) \<and>
         fLine f \<noteq> Some NaN"
proof -
  from assms obtain g3 g4 where f: "fLine f = map_option parseInt g3" "fCol f = map_option parseInt g4"
    by (auto simp: findingOfLine_def split: option.splits)
  have "fLine f \<noteq> Some NaN"
    unfolding f by (cases g3) (simp_all add: parseInt_def toNumber_not_NaN)
  with orZero_parsed [of g3] orZero_parsed [of g4] show ?thesis unfolding f by simp
qed

lemma collected_numbers:
  assumes "i \<in> set (collectReviewItems text uri)"
  shows "lineNumber i \<noteq> Some NaN"
proof -
  from assms obtain f where i: "i = itemOfFinding uri f"
    and "f \<in> set (firstOccurrences reviewKey (matchedFindings text))"
    unfolding collect_firsts by auto
  with set_firstOccurrences [of reviewKey "matchedFindings text"]
  have "f \<in> set (matchedFindings text)" by blast
  then obtain l where "findingOfLine l = Some f"
    unfolding matchedFindings_def by (auto simp: List.map_filter_def)
  from finding_numbers [OF this] have "fLine f \<noteq> Some NaN" by simp
  then show ?thesis by (simp add: i itemOfFinding_def newReviewItem_def)
qed

section \<open>The sort\<close>

lemma set_insertBy: "set (insertBy cmp x ys) = insert x (set ys)"
  by (induction ys) auto

lemma jsSub_greater: "jsGreater (jsSub x y) (Num 0) \<longleftrightarrow> jsGreater x y"
  by (cases x; cases y) (simp_all add: jsGreater_toNumber)

lemma jsSub_NaN: "jsSub x y = NaN \<Longrightarrow> \<not> jsGreater x y"
  by (cases x; cases y) (simp_all add: toNumber_not_NaN)

lemma compare_greater:
  "jsGreater (sortCompare compareItems a b) (Num 0) \<longleftrightarrow>
     (case (lineNumber a, lineNumber b) of
        (None, None) \<Rightarrow> False
      | (None, Some y) \<Rightarrow> True
      | (Some x, None) \<Rightarrow> False
      | (Some x, Some y) \<Rightarrow> jsGreater x y)"
  by (simp add: sortCompare_def compareItems_def Let_def jsSub_greater jsSub_NaN
        split: option.split)

lemma jsLessEq_total: "x \<noteq> NaN \<Longrightarrow> y \<noteq> NaN \<Longrightarrow> \<not> jsGreater x y \<Longrightarrow> jsLessEq x y"
  by (cases x; cases y) simp_all

lemma jsGreater_LessEq: "jsGreater x y \<Longrightarrow> jsLessEq y x"
  by (cases x; cases y) simp_all

lemma jsGreater_irrefl: "\<not> jsGreater x x"
  by (cases x) simp_all

lemma jsLessEq_trans: "jsLessEq x y \<Longrightarrow> jsLessEq y z \<Longrightarrow> jsLessEq x z"
  by (cases x; cases y; cases z) simp_all

lemma compare_le:
  assumes "\<not> jsGreater (sortCompare compareItems a b) (Num 0)"
    and "lineNumber a \<noteq> Some NaN" and "lineNumber b \<noteq> Some NaN"
  shows "lineOrdered a b"
  using assms unfolding compare_greater lineOrdered_def
  by (auto split: option.splits intro: jsLessEq_total)

lemma compare_gt: "jsGreater (sortCompare compareItems a b) (Num 0) \<Longrightarrow> lineOrdered b a"
  unfolding compare_greater lineOrdered_def
  by (auto split: option.splits intro: jsGreater_LessEq)

lemma compare_tie:
  "lineNumber a = lineNumber b \<Longrightarrow> \<not> jsGreater (sortCompare compareItems a b) (Num 0)"
  unfolding compare_greater by (auto split: option.splits simp: jsGreater_irrefl)

lemma lineOrdered_trans: "lineOrdered a b \<Longrightarrow> lineOrdered b c \<Longrightarrow> lineOrdered a c"
  by (auto simp: lineOrdered_def split: option.splits intro: jsLessEq_trans)

lemma sorted_insertBy:
  assumes "sorted_wrt lineOrdered ys" and "\<forall>i\<in>set (x # ys). lineNumber i \<noteq> Some NaN"
  shows "sorted_wrt lineOrdered (insertBy compareItems x ys)"
  using assms
proof (induction ys)
  case Nil
  then show ?case by simp
next
  case (Cons y ys)
  show ?case
  proof (cases "jsGreater (sortCompare compareItems x y) (Num 0)")
    case False
    with Cons.prems(2) have xy: "lineOrdered x y" by (intro compare_le) simp_all
    with Cons.prems(1) have "\<forall>z\<in>set (y # ys). lineOrdered x z"
      by (auto intro: lineOrdered_trans)
    with False Cons.prems(1) show ?thesis by simp
  next
    case True
    then have yx: "lineOrdered y x" by (rule compare_gt)
    from Cons.prems have "sorted_wrt lineOrdered (insertBy compareItems x ys)"
      by (intro Cons.IH) simp_all
    with True yx Cons.prems(1) show ?thesis by (auto simp: set_insertBy)
  qed
qed

lemma sorted_sortBy:
  "\<forall>i\<in>set xs. lineNumber i \<noteq> Some NaN \<Longrightarrow> sorted_wrt lineOrdered (sortBy compareItems xs)"
proof (induction xs)
  case Nil
  show ?case by (simp add: sortBy_def)
next
  case (Cons x xs)
  then have s: "sorted_wrt lineOrdered (foldr (insertBy compareItems) xs [])"
    by (simp add: sortBy_def)
  have "set (foldr (insertBy compareItems) xs []) = set xs"
    by (induction xs) (simp_all add: set_insertBy)
  with Cons.prems have "\<forall>i\<in>set (x # foldr (insertBy compareItems) xs []). lineNumber i \<noteq> Some NaN"
    by simp
  with s have "sorted_wrt lineOrdered (insertBy compareItems x (foldr (insertBy compareItems) xs []))"
    by (rule sorted_insertBy)
  then show ?case by (simp add: sortBy_def)
qed

lemma filter_insertBy:
  "filter (\<lambda>i. lineNumber i = k) (insertBy compareItems x ys) =
     (if lineNumber x = k then x # filter (\<lambda>i. lineNumber i = k) ys
      else filter (\<lambda>i. lineNumber i = k) ys)"
  by (induction ys) (auto dest: compare_tie)

lemma filter_sortBy:
  "filter (\<lambda>i. lineNumber i = k) (sortBy compareItems xs) = filter (\<lambda>i. lineNumber i = k) xs"
  unfolding sortBy_def by (induction xs) (auto simp: filter_insertBy)

lemma set_foldr_insertBy: "set (foldr (insertBy cmp) xs []) = set xs"
  by (induction xs) (simp_all add: set_insertBy)

lemma set_sortBy: "set (sortBy cmp xs) = set xs"
  by (simp add: sortBy_def set_foldr_insertBy)

lemma length_insertBy: "length (insertBy cmp x ys) = Suc (length ys)"
  by (induction ys) simp_all

lemma length_sortBy: "length (sortBy cmp xs) = length xs"
  unfolding sortBy_def by (induction xs) (simp_all add: length_insertBy)

lemma distinct_insertBy:
  "distinct (map f (insertBy cmp x ys)) = (f x \<notin> f ` set ys \<and> distinct (map f ys))"
  by (induction ys) (auto simp: set_insertBy)

lemma distinct_sortBy: "distinct (map f (sortBy cmp xs)) = distinct (map f xs)"
  unfolding sortBy_def
  by (induction xs) (simp_all add: distinct_insertBy set_foldr_insertBy)

text \<open>
  C3. For every text the list the parser returns is in order: the line numbers ascend
  (as the numbers \<^verbatim>\<open>parseInt\<close> made of them, compared by \<^verbatim>\<open><=\<close>) and the items without a
  line number stand last. The sort is stable: for every line number, and for no line
  number, the items that have it are in the order in which the loop collected them.
\<close>

theorem C3_sorted_by_line:
  "sorted_wrt lineOrdered (parseReviewItems text uri) \<and>
   (\<forall>k. filter (\<lambda>i. lineNumber i = k) (parseReviewItems text uri) =
        filter (\<lambda>i. lineNumber i = k) (collectReviewItems text uri)) \<and>
   length (parseReviewItems text uri) = length (collectReviewItems text uri)"
proof -
  have "\<forall>i\<in>set (collectReviewItems text uri). lineNumber i \<noteq> Some NaN"
    using collected_numbers by blast
  then have "sorted_wrt lineOrdered (sortBy compareItems (collectReviewItems text uri))"
    by (rule sorted_sortBy)
  then show ?thesis by (simp add: parseReviewItems_def filter_sortBy length_sortBy)
qed

text \<open>Two line numbers that are read as the same double tie: the items stay in
  the order of their lines.\<close>

lemma rounded_numbers_tie:
  "parseReviewItems (asc ''[INFO] a [Ln 9007199254740993]'' @ [10] @
                     asc ''[INFO] b [Ln 9007199254740992]'') uri =
     [itemOfFinding uri \<lparr>fSeverity = Info, content = asc ''a'',
                         fLine = Some (Num 9007199254740992), fCol = None\<rparr>,
      itemOfFinding uri \<lparr>fSeverity = Info, content = asc ''b'',
                         fLine = Some (Num 9007199254740992), fCol = None\<rparr>]"
proof -
  have l: "reviewLines (asc ''[INFO] a [Ln 9007199254740993]'' @ [10] @
                        asc ''[INFO] b [Ln 9007199254740992]'') =
      [asc ''[INFO] a [Ln 9007199254740993]'', asc ''[INFO] b [Ln 9007199254740992]'']"
    by (simp add: line_defs rx_defs str_defs)
  have f: "findingOfLine (asc ''[INFO] a [Ln 9007199254740993]'') =
        Some \<lparr>fSeverity = Info, content = asc ''a'',
              fLine = Some (Num 9007199254740992), fCol = None\<rparr>"
      "findingOfLine (asc ''[INFO] b [Ln 9007199254740992]'') =
        Some \<lparr>fSeverity = Info, content = asc ''b'',
              fLine = Some (Num 9007199254740992), fCol = None\<rparr>"
    by (simp_all add: findingOfLine_def severityRegex_def rx_defs str_defs severityOfText_def
          toNumber_def roundToEven_bits [of 1])
  let ?A = "\<lparr>fSeverity = Info, content = asc ''a'',
             fLine = Some (Num 9007199254740992), fCol = None\<rparr>"
  let ?B = "\<lparr>fSeverity = Info, content = asc ''b'',
             fLine = Some (Num 9007199254740992), fCol = None\<rparr>"
  have k: "reviewKey ?B \<noteq> reviewKey ?A" by (simp add: reviewKey_def asc_def)
  have c: "collectReviewItems (asc ''[INFO] a [Ln 9007199254740993]'' @ [10] @
                               asc ''[INFO] b [Ln 9007199254740992]'') uri =
      [itemOfFinding uri ?A, itemOfFinding uri ?B]"
    unfolding collectReviewItems_def l by (simp add: reviewStep_def f k)
  have t: "\<not> jsGreater (sortCompare compareItems (itemOfFinding uri ?A) (itemOfFinding uri ?B))
             (Num 0)"
    by (rule compare_tie) (simp add: itemOfFinding_def newReviewItem_def)
  show ?thesis
    unfolding parseReviewItems_def c by (simp add: sortBy_def t)
qed

section \<open>The keys\<close>

lemma split_last_dash:
  fixes a b a' b' :: "nat list"
  assumes "45 \<notin> set b" and "45 \<notin> set b'" and "a @ 45 # b = a' @ 45 # b'"
  shows "a = a' \<and> b = b'"
proof -
  have t: "takeWhile (\<lambda>c. c \<noteq> 45) (rev (x @ 45 # y)) = rev y" if "45 \<notin> set y"
    for x y :: "nat list"
    using that by (auto simp: takeWhile_tail)
  from assms(1) have "takeWhile (\<lambda>c. c \<noteq> 45) (rev (a @ 45 # b)) = rev b" by (rule t)
  moreover from assms(2) have "takeWhile (\<lambda>c. c \<noteq> 45) (rev (a' @ 45 # b')) = rev b'"
    by (rule t)
  ultimately have "b = b'" using assms(3) by simp
  with assms(3) show ?thesis by simp
qed

lemma split_first_dash:
  fixes a b a' b' :: "nat list"
  assumes "45 \<notin> set a" and "45 \<notin> set a'" and "a @ 45 # b = a' @ 45 # b'"
  shows "a = a' \<and> b = b'"
proof -
  have t: "takeWhile (\<lambda>c. c \<noteq> 45) (x @ 45 # y) = x" if "45 \<notin> set x" for x y :: "nat list"
    using that by (auto simp: takeWhile_tail)
  from assms(1) have "takeWhile (\<lambda>c. c \<noteq> 45) (a @ 45 # b) = a" by (rule t)
  moreover from assms(2) have "takeWhile (\<lambda>c. c \<noteq> 45) (a' @ 45 # b') = a'" by (rule t)
  ultimately have "a = a'" using assms(3) by simp
  with assms(3) show ?thesis by simp
qed

lemma severityValue_no_dash: "45 \<notin> set (severityValue s)"
  by (cases s) (simp_all add: asc_def)

lemma severityValue_inj: "severityValue s = severityValue s' \<Longrightarrow> s = s'"
  by (cases s; cases s') (simp_all add: asc_def)

lemma reviewKey_eq:
  assumes "orZero (fLine f) = toNumber (int lf)" and "orZero (fCol f) = toNumber (int cf)"
      and "orZero (fLine g) = toNumber (int lg)" and "orZero (fCol g) = toNumber (int cg)"
  shows "reviewKey f = reviewKey g \<longleftrightarrow>
     fSeverity f = fSeverity g \<and> content f = content g \<and>
     orZero (fLine f) = orZero (fLine g) \<and> orZero (fCol f) = orZero (fCol g)"
proof
  assume k: "reviewKey f = reviewKey g"
  let ?L = "\<lambda>h. numToString (orZero (fLine h))"
  let ?C = "\<lambda>h. numToString (orZero (fCol h))"
  let ?S = "\<lambda>h. severityValue (fSeverity h)"
  have d: "45 \<notin> set (?L f)" "45 \<notin> set (?C f)" "45 \<notin> set (?L g)" "45 \<notin> set (?C g)"
    unfolding assms by (rule numToString_no_dash)+
  from k have "(?S f @ 45 # content f @ 45 # ?L f) @ 45 # ?C f =
               (?S g @ 45 # content g @ 45 # ?L g) @ 45 # ?C g"
    by (simp add: reviewKey_def)
  from split_last_dash [OF d(2) d(4) this]
  have c: "?C f = ?C g" and r1: "?S f @ 45 # content f @ 45 # ?L f = ?S g @ 45 # content g @ 45 # ?L g"
    by blast+
  from r1 have "(?S f @ 45 # content f) @ 45 # ?L f = (?S g @ 45 # content g) @ 45 # ?L g"
    by simp
  from split_last_dash [OF d(1) d(3) this]
  have l: "?L f = ?L g" and r2: "?S f @ 45 # content f = ?S g @ 45 # content g"
    by blast+
  from r2 have sc: "?S f = ?S g \<and> content f = content g"
    by (rule split_first_dash [OF severityValue_no_dash severityValue_no_dash])
  from l have l': "orZero (fLine f) = orZero (fLine g)"
    unfolding assms by (rule numToString_nat_inj)
  from c have c': "orZero (fCol f) = orZero (fCol g)"
    unfolding assms by (rule numToString_nat_inj)
  from sc l' c' show "fSeverity f = fSeverity g \<and> content f = content g \<and>
     orZero (fLine f) = orZero (fLine g) \<and> orZero (fCol f) = orZero (fCol g)"
    by (auto dest: severityValue_inj)
next
  assume "fSeverity f = fSeverity g \<and> content f = content g \<and>
     orZero (fLine f) = orZero (fLine g) \<and> orZero (fCol f) = orZero (fCol g)"
  then show "reviewKey f = reviewKey g" by (simp add: reviewKey_def)
qed

lemma reviewKey_of_lines:
  assumes "findingOfLine l = Some f" and "findingOfLine l' = Some g"
  shows "reviewKey f = reviewKey g \<longleftrightarrow>
     fSeverity f = fSeverity g \<and> content f = content g \<and>
     orZero (fLine f) = orZero (fLine g) \<and> orZero (fCol f) = orZero (fCol g)"
proof -
  from finding_numbers [OF assms(1)] obtain lf cf where
    f: "orZero (fLine f) = toNumber (int lf)" "orZero (fCol f) = toNumber (int cf)" by blast
  from finding_numbers [OF assms(2)] obtain lg cg where
    g: "orZero (fLine g) = toNumber (int lg)" "orZero (fCol g) = toNumber (int cg)" by blast
  from f g show ?thesis by (rule reviewKey_eq)
qed

text \<open>
  C2. For every text the items the parser returns have pairwise distinct identity keys.
  The key of a finding is a function of its severity, its message and its line and
  column, as the numbers \<^verbatim>\<open>parseInt\<close> made of them and with a missing number counted as 0;
  two findings read from lines have the same key exactly when they agree on these four.
  The items are those of the first occurrences, in line order, of the keys of the
  matching lines.
\<close>

theorem C2_keys_distinct:
  "distinct (map (\<lambda>i. reviewKey (findingOfItem i)) (parseReviewItems text uri)) \<and>
   parseReviewItems text uri =
     sortBy compareItems
       (map (itemOfFinding uri) (firstOccurrences reviewKey (matchedFindings text))) \<and>
   (\<forall>l l' f g. findingOfLine l = Some f \<and> findingOfLine l' = Some g \<longrightarrow>
      (reviewKey f = reviewKey g \<longleftrightarrow>
         fSeverity f = fSeverity g \<and> content f = content g \<and>
         orZero (fLine f) = orZero (fLine g) \<and> orZero (fCol f) = orZero (fCol g)))"
proof -
  have "distinct (map (\<lambda>i. reviewKey (findingOfItem i))
          (map (itemOfFinding uri) (firstOccurrences reviewKey (matchedFindings text))))"
    using distinct_firstOccurrences [of reviewKey "matchedFindings text"]
    by (simp add: comp_def findingOfItem_itemOfFinding)
  then have "distinct (map (\<lambda>i. reviewKey (findingOfItem i)) (parseReviewItems text uri))"
    by (simp add: parseReviewItems_def collect_firsts distinct_sortBy)
  moreover have "parseReviewItems text uri =
     sortBy compareItems
       (map (itemOfFinding uri) (firstOccurrences reviewKey (matchedFindings text)))"
    by (simp add: parseReviewItems_def collect_firsts)
  ultimately show ?thesis using reviewKey_of_lines by blast
qed

lemma rounded_findings:
  "findingOfLine (asc ''[ERROR] m [Ln 9007199254740993]'') =
     Some \<lparr>fSeverity = Error, content = asc ''m'',
           fLine = Some (Num 9007199254740992), fCol = None\<rparr>"
  "findingOfLine (asc ''[ERROR] m [Ln 9007199254740992]'') =
     Some \<lparr>fSeverity = Error, content = asc ''m'',
           fLine = Some (Num 9007199254740992), fCol = None\<rparr>"
  "findingOfLine (asc ''[ERROR] m [Ln 7]'') =
     Some \<lparr>fSeverity = Error, content = asc ''m'', fLine = Some (Num 7), fCol = None\<rparr>"
  by (simp_all add: findingOfLine_def severityRegex_def rx_defs str_defs severityOfText_def
        toNumber_def roundToEven_bits [of 1] roundToEven_small)

lemma rounded_lines:
  "reviewLines (asc ''[ERROR] m [Ln 9007199254740993]'' @ [10] @
                asc ''[ERROR] m [Ln 9007199254740992]'') =
     [asc ''[ERROR] m [Ln 9007199254740993]'', asc ''[ERROR] m [Ln 9007199254740992]'']"
  by (simp add: line_defs rx_defs str_defs)

text \<open>
  The lines \<^verbatim>\<open>[ERROR] m [Ln 9007199254740993]\<close> and \<^verbatim>\<open>[ERROR] m [Ln 9007199254740992]\<close>
  are read with the same line number, \<open>2^53\<close>, and so have the same key: the text made of
  the two gives one item. The line \<^verbatim>\<open>[ERROR] m [Ln 7]\<close> has another key.
\<close>

theorem C2_witness:
  "findingOfLine (asc ''[ERROR] m [Ln 9007199254740993]'') =
     Some \<lparr>fSeverity = Error, content = asc ''m'',
           fLine = Some (Num 9007199254740992), fCol = None\<rparr> \<and>
   findingOfLine (asc ''[ERROR] m [Ln 9007199254740992]'') =
     Some \<lparr>fSeverity = Error, content = asc ''m'',
           fLine = Some (Num 9007199254740992), fCol = None\<rparr> \<and>
   findingOfLine (asc ''[ERROR] m [Ln 7]'') =
     Some \<lparr>fSeverity = Error, content = asc ''m'', fLine = Some (Num 7), fCol = None\<rparr> \<and>
   reviewKey \<lparr>fSeverity = Error, content = asc ''m'',
              fLine = Some (Num 9007199254740992), fCol = None\<rparr> \<noteq>
   reviewKey \<lparr>fSeverity = Error, content = asc ''m'', fLine = Some (Num 7), fCol = None\<rparr> \<and>
   length (parseReviewItems (asc ''[ERROR] m [Ln 9007199254740993]'' @ [10] @
                             asc ''[ERROR] m [Ln 9007199254740992]'') (asc ''u'')) = 1"
proof -
  let ?F = "\<lparr>fSeverity = Error, content = asc ''m'',
             fLine = Some (Num 9007199254740992), fCol = None\<rparr>"
  let ?G = "\<lparr>fSeverity = Error, content = asc ''m'', fLine = Some (Num 7), fCol = None\<rparr>"
  let ?text = "asc ''[ERROR] m [Ln 9007199254740993]'' @ [10] @
               asc ''[ERROR] m [Ln 9007199254740992]''"
  note c2 = C2_keys_distinct [of ?text "asc ''u''"]
  from c2 rounded_findings(1,3) have
    "reviewKey ?F = reviewKey ?G \<longleftrightarrow>
       fSeverity ?F = fSeverity ?G \<and> content ?F = content ?G \<and>
       orZero (fLine ?F) = orZero (fLine ?G) \<and> orZero (fCol ?F) = orZero (fCol ?G)"
    by blast
  then have k: "reviewKey ?F \<noteq> reviewKey ?G" by (simp add: orZero_def truthy_def)
  have m: "matchedFindings ?text = [?F, ?F]"
    unfolding matchedFindings_def rounded_lines by (simp add: rounded_findings)
  from c2 have "parseReviewItems ?text (asc ''u'') =
     sortBy compareItems
       (map (itemOfFinding (asc ''u'')) (firstOccurrences reviewKey (matchedFindings ?text)))"
    by blast
  then have "length (parseReviewItems ?text (asc ''u'')) = 1"
    unfolding m by (simp add: length_sortBy)
  with rounded_findings k show ?thesis by blast
qed

section \<open>The escaping of a snippet\<close>

declare wsRuns.simps [simp del] snippetPattern.simps [simp del]

lemma ws_not_syntax: "isWhiteSpace c \<Longrightarrow> c \<notin> set syntaxChars"
  by (auto simp: isWhiteSpace_def syntaxChars_def)

lemma syntax_not_ws: "c \<in> set syntaxChars \<Longrightarrow> \<not> isWhiteSpace c"
  using ws_not_syntax by blast

lemma backslash_not_ws: "\<not> isWhiteSpace 92"
  by (simp add: isWhiteSpace_def)

lemma inCset_Lits: "inCset ci (Cls (map Lit xs)) c \<longleftrightarrow> (\<exists>x\<in>set xs. canonicalize ci x = canonicalize ci c)"
  by (simp add: list_ex_iff)

lemma inCset_meta: "inCset False (Cls (map Lit syntaxChars)) c \<longleftrightarrow> c \<in> set syntaxChars"
  by (auto simp: list_ex_iff canonicalize_def)

lemma matchAt_Chr:
  "matchAt ci (Chr cs) i s =
     (case s of
        [] \<Rightarrow> None
      | c # _ \<Rightarrow> if inCset ci cs c
                 then Some \<lparr>index = i, matched = [c], groups = Map.empty\<rparr> else None)"
  by (cases s) (simp_all add: matchAt_def advance_def)

lemma replaceAllFrom_Chr:
  "replaceAllFrom ci (Chr cs) f i s = concat (map (\<lambda>c. if inCset ci cs c then f [c] else [c]) s)"
  by (induction s arbitrary: i) (simp_all add: matchAt_Chr)

lemma escape_meta:
  "replaceAll False metaRegex (\<lambda>m. 92 # m) s = concat (map escChar s)"
  by (simp add: replaceAll_def metaRegex_def replaceAllFrom_Chr inCset_meta
        escChar_def [abs_def] del: inCset.simps)

lemma inCset_Space [simp]: "inCset ci Space = isWhiteSpace"
  by (rule ext) simp

lemma matchAt_wsPlus:
  "matchAt False (Rep True (Suc 0) Space) i s =
     (if takeWhile isWhiteSpace s = [] then None
      else Some \<lparr>index = i, matched = takeWhile isWhiteSpace s, groups = Map.empty\<rparr>)"
proof (cases "takeWhile isWhiteSpace s = []")
  case True
  then show ?thesis by (simp add: matchAt_def)
next
  case False
  let ?n = "length (takeWhile isWhiteSpace s)"
  from False have n: "0 < ?n" by simp
  then have r: "rev [Suc 0..<Suc ?n] = ?n # rev [Suc 0..<?n]" by (simp add: Suc_le_eq)
  have t: "take ?n s = takeWhile isWhiteSpace s"
    by (simp add: takeWhile_eq_take [symmetric])
  from False n show ?thesis
    by (simp add: matchAt_def Let_def advance_def r t Suc_le_eq del: upt_Suc)
qed

lemma replace_ws_runs:
  "replaceAllFrom False (Rep True (Suc 0) Space) (\<lambda>_. p) i s = wsRuns p s"
proof (induction p s arbitrary: i rule: wsRuns.induct)
  case (1 p)
  show ?case by (simp add: matchAt_wsPlus wsRuns.simps)
next
  case (2 p c cs)
  show ?case
  proof (cases "isWhiteSpace c")
    case True
    have "drop (length (takeWhile isWhiteSpace cs)) cs = dropWhile isWhiteSpace cs"
      by (simp add: dropWhile_eq_drop)
    with True 2(1) show ?thesis
      by (simp add: matchAt_wsPlus wsRuns.simps)
  next
    case False
    with 2(2) show ?thesis
      by (simp add: matchAt_wsPlus wsRuns.simps)
  qed
qed

lemma escChar_ws: "isWhiteSpace c \<Longrightarrow> escChar c = [c]"
  by (simp add: escChar_def ws_not_syntax)

lemma escChar_hd: "\<not> isWhiteSpace c \<Longrightarrow> \<exists>d ds. escChar c = d # ds \<and> \<not> isWhiteSpace d"
  by (simp add: escChar_def backslash_not_ws)

lemma escChar_last: "\<not> isWhiteSpace c \<Longrightarrow> escChar c = butlast (escChar c) @ [c]"
  by (simp add: escChar_def)

lemma dropWhile_escape:
  "dropWhile isWhiteSpace (concat (map escChar s)) = concat (map escChar (dropWhile isWhiteSpace s))"
proof (induction s)
  case Nil
  then show ?case by simp
next
  case (Cons c s)
  show ?case
  proof (cases "isWhiteSpace c")
    case True
    with Cons show ?thesis by (simp add: escChar_ws)
  next
    case False
    then obtain d ds where "escChar c = d # ds" "\<not> isWhiteSpace d"
      using escChar_hd by blast
    with False show ?thesis by simp
  qed
qed

lemma trimEnd_snoc:
  "trimEnd (xs @ [c]) = (if isWhiteSpace c then trimEnd xs else xs @ [c])"
  by (simp add: trimEnd_def)

lemma trimEnd_escape: "trimEnd (concat (map escChar s)) = concat (map escChar (trimEnd s))"
proof (induction s rule: rev_induct)
  case Nil
  then show ?case by (simp add: trimEnd_def)
next
  case (snoc c s)
  show ?case
  proof (cases "isWhiteSpace c")
    case True
    with snoc show ?thesis by (simp add: escChar_ws trimEnd_snoc)
  next
    case False
    have "trimEnd ((concat (map escChar s) @ butlast (escChar c)) @ [c]) =
            (concat (map escChar s) @ butlast (escChar c)) @ [c]"
      using False by (simp only: trimEnd_snoc if_False)
    with False show ?thesis
      using escChar_last [OF False] by (simp add: trimEnd_snoc)
  qed
qed

lemma trim_escape: "trim (concat (map escChar s)) = concat (map escChar (trim s))"
  by (simp add: trim_def trimStart_def dropWhile_escape trimEnd_escape)

lemma escapeSnippet_eq:
  "escapeSnippet s = wsRuns [92, 115, 43] (concat (map escChar (trim s)))"
  unfolding escapeSnippet_def escape_meta trim_escape
  by (simp add: replaceAll_def replace_ws_runs)

lemma seqE_Inr [simp]: "seqE a (Inr b) = Inr (Seq a b)"
  by (simp add: seqE_def)

lemma newRegExp_ws:
  "newRegExp (92 # 115 # 43 # x) = seqE (Rep True 1 Space) (newRegExp x)"
  by simp

lemma newRegExp_escChar:
  "\<not> isWhiteSpace c \<Longrightarrow> newRegExp (escChar c @ x) = seqE (Chr (Lit c)) (newRegExp x)"
  by (auto simp: escChar_def syntaxChars_def)

lemma wsRuns_escChar:
  "\<not> isWhiteSpace c \<Longrightarrow> wsRuns p (escChar c @ x) = escChar c @ wsRuns p x"
  by (simp add: escChar_def wsRuns.simps backslash_not_ws)

lemma newRegExp_escaped:
  "newRegExp (wsRuns [92, 115, 43] (concat (map escChar t))) = Inr (snippetPattern t)"
proof (induction t rule: snippetPattern.induct)
  case 1
  show ?case by (simp add: wsRuns.simps snippetPattern.simps)
next
  case (2 c cs)
  show ?case
  proof (cases "isWhiteSpace c")
    case True
    with 2(1) show ?thesis
      by (simp add: escChar_ws wsRuns.simps(2) [of _ c] dropWhile_escape snippetPattern.simps(2) [of c]
            del: newRegExp.simps add: newRegExp_ws)
  next
    case False
    with 2(2) show ?thesis
      by (simp add: wsRuns_escChar newRegExp_escChar snippetPattern.simps(2) [of c]
            del: newRegExp.simps)
  qed
qed

lemma newRegExp_escapeSnippet: "newRegExp (escapeSnippet s) = Inr (snippetPattern (trim s))"
  by (simp add: escapeSnippet_eq newRegExp_escaped)

section \<open>Matching the pattern of a snippet\<close>

lemma squeeze_Nil [simp]: "squeeze [] = []"
  by (simp add: squeeze_def wsRuns.simps)

lemma squeeze_ws: "isWhiteSpace c \<Longrightarrow> squeeze (c # cs) = 32 # squeeze (dropWhile isWhiteSpace cs)"
  by (simp add: squeeze_def wsRuns.simps)

lemma squeeze_char: "\<not> isWhiteSpace c \<Longrightarrow> squeeze (c # cs) = c # squeeze cs"
  by (simp add: squeeze_def wsRuns.simps)

lemma space_ws: "isWhiteSpace 32"
  by (simp add: isWhiteSpace_def)

lemma squeeze_Cons:
  "squeeze (c # cs) =
     (if isWhiteSpace c then 32 # squeeze (dropWhile isWhiteSpace cs) else c # squeeze cs)"
  by (simp add: squeeze_ws squeeze_char)

lemma squeeze_eq_Nil [simp]: "squeeze x = [] \<longleftrightarrow> x = []"
  by (cases x) (simp_all add: squeeze_Cons)

lemma squeeze_hd_ws: "x \<noteq> [] \<Longrightarrow> isWhiteSpace (hd (squeeze x)) = isWhiteSpace (hd x)"
  by (cases x) (simp_all add: squeeze_Cons space_ws)

lemma squeeze_run:
  assumes "w \<noteq> []" and "\<forall>c\<in>set w. isWhiteSpace c" and "x = [] \<or> \<not> isWhiteSpace (hd x)"
  shows "squeeze (w @ x) = 32 # squeeze x"
proof -
  from assms(1) obtain c w' where w: "w = c # w'" by (cases w) auto
  from assms(2) w have "dropWhile isWhiteSpace (w' @ x) = dropWhile isWhiteSpace x"
    by (simp add: dropWhile_append)
  also from assms(3) have "\<dots> = x" by (cases x) auto
  finally show ?thesis using assms(2) w by (simp add: squeeze_ws)
qed

lemma length_takeWhile_take:
  "length (takeWhile P (take n xs)) \<le> length (takeWhile P xs)"
proof (induction xs arbitrary: n)
  case Nil
  then show ?case by simp
next
  case (Cons x xs)
  then show ?case by (cases n) auto
qed

lemma dropWhile_not_ws_hd: "dropWhile isWhiteSpace cs = [] \<or> \<not> isWhiteSpace (hd (dropWhile isWhiteSpace cs))"
  using hd_dropWhile [of isWhiteSpace cs] by blast

lemma same_squeeze_hd:
  assumes "squeeze x = squeeze t" and "t = [] \<or> \<not> isWhiteSpace (hd t)"
  shows "x = [] \<or> \<not> isWhiteSpace (hd x)"
proof (cases "x = []")
  case True
  then show ?thesis by simp
next
  case False
  with assms(1) have t: "t \<noteq> []" by (metis squeeze_eq_Nil)
  with assms(2) have "\<not> isWhiteSpace (hd (squeeze t))" by (simp add: squeeze_hd_ws)
  with assms(1) have "\<not> isWhiteSpace (hd (squeeze x))" by simp
  with squeeze_hd_ws [OF False] show ?thesis by simp
qed

lemma rmatch_Seq_nonempty:
  "rmatch ci (Seq a b) st \<noteq> [] \<longleftrightarrow> (\<exists>st'\<in>set (rmatch ci a st). rmatch ci b st' \<noteq> [])"
  by auto

lemma rmatch_wsPlus_set:
  "set (rmatch False (Rep True (Suc 0) Space) st) =
     {advance st k | k. 1 \<le> k \<and> k \<le> length (takeWhile isWhiteSpace (rest st))}"
  by (auto simp: Let_def)

lemma rmatch_Lit:
  "rmatch False (Chr (Lit c)) st =
     (case rest st of [] \<Rightarrow> [] | d # _ \<Rightarrow> if c = d then [advance st 1] else [])"
  by (simp add: canonicalize_def split: list.split)

lemma rest_advance [simp]: "rest (advance st k) = drop k (rest st)"
  by (simp add: advance_def)

lemma rmatch_snippetPattern:
  "rmatch False (snippetPattern t) st \<noteq> [] \<longleftrightarrow>
     (\<exists>n\<le>length (rest st). squeeze (take n (rest st)) = squeeze t)"
proof (induction t arbitrary: st rule: snippetPattern.induct)
  case 1
  have "\<exists>n\<le>length (rest st). squeeze (take n (rest st)) = squeeze []"
    by (rule exI [of _ 0]) simp
  then show ?case by (simp add: snippetPattern.simps)
next
  case (2 c cs)
  let ?r = "rest st"
  show ?case
  proof (cases "isWhiteSpace c")
    case True
    let ?t = "dropWhile isWhiteSpace cs"
    let ?m = "length (takeWhile isWhiteSpace ?r)"
    have pat: "snippetPattern (c # cs) = Seq (Rep True (Suc 0) Space) (snippetPattern ?t)"
      using True by (simp add: snippetPattern.simps)
    have sq: "squeeze (c # cs) = 32 # squeeze ?t" using True by (rule squeeze_ws)
    have IH: "\<And>st'. rmatch False (snippetPattern ?t) st' \<noteq> [] \<longleftrightarrow>
            (\<exists>n\<le>length (rest st'). squeeze (take n (rest st')) = squeeze ?t)"
      using 2(1) [OF True] .
    have lhs: "rmatch False (snippetPattern (c # cs)) st \<noteq> [] \<longleftrightarrow>
            (\<exists>k. 1 \<le> k \<and> k \<le> ?m \<and>
               (\<exists>n\<le>length (drop k ?r). squeeze (take n (drop k ?r)) = squeeze ?t))"
    proof -
      have "rmatch False (snippetPattern (c # cs)) st \<noteq> [] \<longleftrightarrow>
              (\<exists>st'\<in>{advance st k | k. 1 \<le> k \<and> k \<le> ?m}.
                 rmatch False (snippetPattern ?t) st' \<noteq> [])"
        unfolding pat rmatch_Seq_nonempty rmatch_wsPlus_set ..
      also have "\<dots> \<longleftrightarrow>
              (\<exists>k. 1 \<le> k \<and> k \<le> ?m \<and> rmatch False (snippetPattern ?t) (advance st k) \<noteq> [])"
        by blast
      also have "\<dots> \<longleftrightarrow>
              (\<exists>k. 1 \<le> k \<and> k \<le> ?m \<and>
                 (\<exists>n\<le>length (drop k ?r). squeeze (take n (drop k ?r)) = squeeze ?t))"
        by (simp only: IH rest_advance)
      finally show ?thesis .
    qed
    show ?thesis
    proof
      assume "rmatch False (snippetPattern (c # cs)) st \<noteq> []"
      with lhs obtain k n where k: "1 \<le> k" "k \<le> ?m" and n: "n \<le> length (drop k ?r)"
        and e: "squeeze (take n (drop k ?r)) = squeeze ?t" by blast
      let ?w = "take k ?r" and ?x = "take n (drop k ?r)"
      have km: "k \<le> length ?r" using k(2) length_takeWhile_le [of isWhiteSpace ?r] by simp
      have w1: "?w \<noteq> []" using k km by (cases ?r) auto
      have "?w = take k (takeWhile isWhiteSpace ?r)"
        using k(2) by (metis takeWhile_eq_take take_take min.absorb1 min.commute)
      then have w2: "\<forall>c\<in>set ?w. isWhiteSpace c"
        by (metis in_set_takeD set_takeWhileD)
      have x: "?x = [] \<or> \<not> isWhiteSpace (hd ?x)"
        using e dropWhile_not_ws_hd by (rule same_squeeze_hd)
      have "take (k + n) ?r = ?w @ ?x" by (simp add: take_add)
      then have "squeeze (take (k + n) ?r) = 32 # squeeze ?t"
        using squeeze_run [OF w1 w2 x] e by simp
      moreover have "k + n \<le> length ?r" using n km by simp
      ultimately show "\<exists>n\<le>length ?r. squeeze (take n ?r) = squeeze (c # cs)"
        unfolding sq by blast
    next
      assume "\<exists>n\<le>length ?r. squeeze (take n ?r) = squeeze (c # cs)"
      then obtain n where n: "n \<le> length ?r" and e: "squeeze (take n ?r) = 32 # squeeze ?t"
        unfolding sq by blast
      let ?y = "take n ?r"
      from e have y: "?y \<noteq> []" by (metis list.discI squeeze_Nil)
      then obtain h ys where hy: "?y = h # ys" by (cases ?y) auto
      have wh: "isWhiteSpace h"
      proof (rule ccontr)
        assume "\<not> isWhiteSpace h"
        with e hy have "h = 32" by (simp add: squeeze_char)
        with \<open>\<not> isWhiteSpace h\<close> show False by (simp add: space_ws)
      qed
      let ?k = "length (takeWhile isWhiteSpace ?y)"
      have k1: "1 \<le> ?k" using hy wh by simp
      have k2: "?k \<le> ?m" by (rule length_takeWhile_take)
      have kn: "?k \<le> n" using length_takeWhile_le [of isWhiteSpace ?y] n by simp
      have "dropWhile isWhiteSpace ?y = drop ?k ?y" by (simp add: dropWhile_eq_drop)
      also have "\<dots> = take (n - ?k) (drop ?k ?r)" by (simp add: drop_take)
      finally have d: "dropWhile isWhiteSpace ?y = take (n - ?k) (drop ?k ?r)" .
      from hy wh have "dropWhile isWhiteSpace ?y = dropWhile isWhiteSpace ys" by simp
      with e hy wh have "squeeze (dropWhile isWhiteSpace ?y) = squeeze ?t"
        by (simp add: squeeze_ws)
      with d have "squeeze (take (n - ?k) (drop ?k ?r)) = squeeze ?t" by simp
      moreover have "n - ?k \<le> length (drop ?k ?r)" using n by simp
      ultimately show "rmatch False (snippetPattern (c # cs)) st \<noteq> []"
        unfolding lhs using k1 k2 by blast
    qed
  next
    case False
    have pat: "snippetPattern (c # cs) = Seq (Chr (Lit c)) (snippetPattern cs)"
      using False by (simp add: snippetPattern.simps)
    have sq: "squeeze (c # cs) = c # squeeze cs" using False by (rule squeeze_char)
    have IH: "\<And>st'. rmatch False (snippetPattern cs) st' \<noteq> [] \<longleftrightarrow>
            (\<exists>n\<le>length (rest st'). squeeze (take n (rest st')) = squeeze cs)"
      using 2(2) [OF False] .
    show ?thesis
    proof (cases ?r)
      case Nil
      then show ?thesis unfolding pat rmatch_Seq_nonempty rmatch_Lit sq by simp
    next
      case (Cons d r')
      show ?thesis
      proof (cases "c = d")
        case True
        have "rmatch False (snippetPattern (c # cs)) st \<noteq> [] \<longleftrightarrow>
                (\<exists>n\<le>length r'. squeeze (take n r') = squeeze cs)"
          unfolding pat rmatch_Seq_nonempty rmatch_Lit using Cons True IH by simp
        also have "\<dots> \<longleftrightarrow> (\<exists>n\<le>length ?r. squeeze (take n ?r) = squeeze (c # cs))"
        proof
          assume "\<exists>n\<le>length r'. squeeze (take n r') = squeeze cs"
          then obtain n where "n \<le> length r'" "squeeze (take n r') = squeeze cs" by blast
          then have "Suc n \<le> length ?r \<and> squeeze (take (Suc n) ?r) = squeeze (c # cs)"
            using Cons True False by (simp add: squeeze_char)
          then show "\<exists>n\<le>length ?r. squeeze (take n ?r) = squeeze (c # cs)" by blast
        next
          assume "\<exists>n\<le>length ?r. squeeze (take n ?r) = squeeze (c # cs)"
          then obtain n where n: "n \<le> length ?r" "squeeze (take n ?r) = c # squeeze cs"
            unfolding sq by blast
          then obtain n' where n': "n = Suc n'" by (cases n) auto
          with n Cons True False have "n' \<le> length r' \<and> squeeze (take n' r') = squeeze cs"
            by (simp add: squeeze_char)
          then show "\<exists>n\<le>length r'. squeeze (take n r') = squeeze cs" by blast
        qed
        finally show ?thesis .
      next
        case ne: False
        have "\<not> (\<exists>n\<le>length ?r. squeeze (take n ?r) = squeeze (c # cs))"
        proof
          assume "\<exists>n\<le>length ?r. squeeze (take n ?r) = squeeze (c # cs)"
          then obtain n where n: "squeeze (take n ?r) = c # squeeze cs" unfolding sq by blast
          then obtain n' where n': "n = Suc n'" by (cases n) auto
          show False
          proof (cases "isWhiteSpace d")
            case True
            with n n' Cons have "c = 32" by (simp add: squeeze_ws)
            with False show False by (simp add: space_ws)
          next
            case dn: False
            with n n' Cons have "c = d" by (simp add: squeeze_char)
            with ne show False by simp
          qed
        qed
        moreover have "rmatch False (snippetPattern (c # cs)) st = []"
          unfolding pat using Cons ne by (simp add: canonicalize_def)
        ultimately show ?thesis by simp
      qed
    qed
  qed
qed

section \<open>The first match\<close>

lemma index_matchAt: "matchAt ci r i s = Some m \<Longrightarrow> index m = i"
  by (auto simp: matchAt_def split: list.splits)

lemma matchAt_None: "matchAt ci r i s = None \<longleftrightarrow> rmatch ci r \<lparr>pos = i, rest = s, caps = Map.empty\<rparr> = []"
  by (simp add: matchAt_def split: list.split)

lemma all_le_Suc: "(\<forall>j\<le>Suc n. P j) \<longleftrightarrow> P 0 \<and> (\<forall>j\<le>n. P (Suc j))"
proof
  assume a: "\<forall>j\<le>Suc n. P j"
  then have "P 0" by simp
  moreover have "\<forall>j\<le>n. P (Suc j)" using a by simp
  ultimately show "P 0 \<and> (\<forall>j\<le>n. P (Suc j))" ..
next
  assume b: "P 0 \<and> (\<forall>j\<le>n. P (Suc j))"
  show "\<forall>j\<le>Suc n. P j"
  proof (intro allI impI)
    fix j assume "j \<le> Suc n"
    with b show "P j" by (cases j) simp_all
  qed
qed

lemma execFrom_None:
  "execFrom ci r i s = None \<longleftrightarrow> (\<forall>j\<le>length s. matchAt ci r (i + j) (drop j s) = None)"
proof (induction s arbitrary: i)
  case Nil
  show ?case by simp
next
  case (Cons c cs)
  show ?case
    by (simp add: Cons.IH all_le_Suc split: option.split)
qed

lemma execFrom_Some:
  "execFrom ci r i s = Some m \<Longrightarrow>
     \<exists>j\<le>length s. index m = i + j \<and> matchAt ci r (i + j) (drop j s) = Some m \<and>
        (\<forall>k<j. matchAt ci r (i + k) (drop k s) = None)"
proof (induction s arbitrary: i)
  case Nil
  then show ?case by (simp add: index_matchAt)
next
  case (Cons c cs)
  show ?case
  proof (cases "matchAt ci r i (c # cs)")
    case (Some a)
    with Cons.prems have "a = m" by simp
    with Some have "index m = i + 0 \<and> matchAt ci r (i + 0) (drop 0 (c # cs)) = Some m \<and>
        (\<forall>k<0. matchAt ci r (i + k) (drop k (c # cs)) = None)"
      by (simp add: index_matchAt)
    then show ?thesis by blast
  next
    case None
    with Cons.prems have "execFrom ci r (Suc i) cs = Some m" by simp
    from Cons.IH [OF this] obtain j where j: "j \<le> length cs" "index m = Suc i + j"
      "matchAt ci r (Suc i + j) (drop j cs) = Some m"
      "\<forall>k<j. matchAt ci r (Suc i + k) (drop k cs) = None" by blast
    have "\<forall>k<Suc j. matchAt ci r (i + k) (drop k (c # cs)) = None"
    proof (intro allI impI)
      fix k assume "k < Suc j"
      then show "matchAt ci r (i + k) (drop k (c # cs)) = None"
        using None j(4) by (cases k) auto
    qed
    with j have "Suc j \<le> length (c # cs) \<and> index m = i + Suc j \<and>
        matchAt ci r (i + Suc j) (drop (Suc j) (c # cs)) = Some m \<and>
        (\<forall>k<Suc j. matchAt ci r (i + k) (drop k (c # cs)) = None)" by simp
    then show ?thesis by blast
  qed
qed

lemma matchAt_snippet:
  "matchAt False (snippetPattern t) i s \<noteq> None \<longleftrightarrow>
     (\<exists>n\<le>length s. squeeze (take n s) = squeeze t)"
  using rmatch_snippetPattern [of t "\<lparr>pos = i, rest = s, caps = Map.empty\<rparr>"]
  by (simp add: matchAt_None)

lemma list_ex_upto: "list_ex P [0..<Suc k] \<longleftrightarrow> (\<exists>n\<le>k. P n)"
  by (auto simp: list_ex_iff less_Suc_eq_le simp del: upt_Suc)

lemma wsMatchAt_iff:
  "wsMatchAt snippet docText j \<longleftrightarrow>
     j \<le> length docText \<and>
     (\<exists>n\<le>length (drop j docText). squeeze (take n (drop j docText)) = squeeze (trim snippet))"
  unfolding wsMatchAt_def list_ex_upto by simp

lemma wsMatchAt_matchAt:
  "wsMatchAt snippet docText j \<longleftrightarrow>
     j \<le> length docText \<and> matchAt False (snippetPattern (trim snippet)) j (drop j docText) \<noteq> None"
  unfolding wsMatchAt_iff matchAt_snippet ..

lemma regexPass_escaped:
  "regexPass (escapeSnippet s) docText =
     Inr (map_option index (exec False (snippetPattern (trim s)) docText))"
  by (simp add: regexPass_def newRegExp_escapeSnippet)

lemma regexPass_first_match:
  assumes "wsMatchAt snippet docText i"
  shows "\<exists>j\<le>i. regexPass (escapeSnippet snippet) docText = Inr (Some j) \<and>
           wsMatchAt snippet docText j \<and> (\<forall>k<j. \<not> wsMatchAt snippet docText k)"
proof -
  let ?r = "snippetPattern (trim snippet)"
  from assms have i: "i \<le> length docText" "matchAt False ?r i (drop i docText) \<noteq> None"
    unfolding wsMatchAt_matchAt by blast+
  have "execFrom False ?r 0 docText \<noteq> None"
  proof
    assume "execFrom False ?r 0 docText = None"
    then have "\<forall>j\<le>length docText. matchAt False ?r (0 + j) (drop j docText) = None"
      unfolding execFrom_None .
    with i(1) have "matchAt False ?r (0 + i) (drop i docText) = None" by blast
    with i(2) show False by simp
  qed
  then obtain m where m: "execFrom False ?r 0 docText = Some m" by blast
  from execFrom_Some [OF this] obtain j where j0: "j \<le> length docText" "index m = 0 + j"
    "matchAt False ?r (0 + j) (drop j docText) = Some m"
    "\<forall>k<j. matchAt False ?r (0 + k) (drop k docText) = None" by blast
  have j2: "index m = j" using j0(2) by simp
  have j3: "matchAt False ?r j (drop j docText) \<noteq> None" using j0(3) by simp
  have j4: "\<And>k. k < j \<Longrightarrow> matchAt False ?r k (drop k docText) = None"
    using j0(4) by simp
  have ji: "j \<le> i"
  proof (rule ccontr)
    assume "\<not> j \<le> i"
    then have "i < j" by simp
    then have "matchAt False ?r i (drop i docText) = None" by (rule j4)
    with i(2) show False by simp
  qed
  have a: "wsMatchAt snippet docText j"
    unfolding wsMatchAt_matchAt by (rule conjI [OF j0(1) j3])
  have b: "\<forall>k<j. \<not> wsMatchAt snippet docText k"
  proof (intro allI impI notI)
    fix k assume kj: "k < j" and w: "wsMatchAt snippet docText k"
    from w have "matchAt False ?r k (drop k docText) \<noteq> None"
      unfolding wsMatchAt_matchAt by (rule conjunct2)
    moreover from kj have "matchAt False ?r k (drop k docText) = None" by (rule j4)
    ultimately show False by contradiction
  qed
  have "exec False ?r docText = Some m" using m by (simp only: exec_def)
  then have c: "regexPass (escapeSnippet snippet) docText = Inr (Some j)"
    unfolding regexPass_escaped using j2 by simp
  from ji a b c have "j \<le> i \<and> regexPass (escapeSnippet snippet) docText = Inr (Some j) \<and>
           wsMatchAt snippet docText j \<and> (\<forall>k<j. \<not> wsMatchAt snippet docText k)"
    by (intro conjI)
  then show ?thesis by (rule exI)
qed

section \<open>The snippet resolver\<close>

lemma exec_Eps: "exec ci Eps s = Some \<lparr>index = 0, matched = [], groups = Map.empty\<rparr>"
  by (cases s) (simp_all add: exec_def matchAt_def)

lemma positionAt_0: "positionAt docText 0 = \<lparr>line = 0, character = 0\<rparr>"
  by (simp add: positionAt_def)

lemma trim_all_ws:
  assumes "\<forall>c\<in>set s. isWhiteSpace c"
  shows "trim s = []"
proof -
  from assms have d: "dropWhile isWhiteSpace s = []" by simp
  show ?thesis unfolding trim_def trimStart_def trimEnd_def d by simp
qed

lemma regexPass_never_throws: "regexPass (escapeSnippet s) docText \<noteq> Inl e"
  by (simp add: regexPass_escaped)

lemma regexPass_empty: "regexPass (escapeSnippet []) docText = Inr (Some 0)"
  by (simp add: regexPass_escaped trim_def trimStart_def trimEnd_def snippetPattern.simps exec_Eps)

lemma trim_decomp:
  "s = takeWhile isWhiteSpace s @ trim s @
         rev (takeWhile isWhiteSpace (rev (dropWhile isWhiteSpace s)))"
proof -
  let ?d = "dropWhile isWhiteSpace s"
  have "?d = rev (dropWhile isWhiteSpace (rev ?d)) @ rev (takeWhile isWhiteSpace (rev ?d))"
    by (metis rev_append rev_rev_ident takeWhile_dropWhile_id)
  then have "?d = trim s @ rev (takeWhile isWhiteSpace (rev ?d))"
    by (simp only: trim_def trimStart_def trimEnd_def)
  moreover have "s = takeWhile isWhiteSpace s @ ?d" by simp
  ultimately show ?thesis by simp
qed

lemma fragment_wsMatchAt:
  assumes "docText = before @ fragment @ after"
      and "squeeze (trim snippet) = squeeze (trim fragment)"
  shows "wsMatchAt snippet docText (length before + length (takeWhile isWhiteSpace fragment))"
proof -
  let ?w = "takeWhile isWhiteSpace fragment"
  let ?z = "rev (takeWhile isWhiteSpace (rev (dropWhile isWhiteSpace fragment)))"
  let ?i = "length before + length ?w"
  have "docText = (before @ ?w) @ trim fragment @ ?z @ after"
    using assms(1) trim_decomp [of fragment] by (metis append.assoc)
  then have d: "drop ?i docText = trim fragment @ ?z @ after" by simp
  have i: "?i \<le> length docText" using assms(1) length_takeWhile_le [of isWhiteSpace fragment]
    by simp
  have "length (trim fragment) \<le> length (drop ?i docText) \<and>
        squeeze (take (length (trim fragment)) (drop ?i docText)) = squeeze (trim snippet)"
    unfolding d using assms(2) by simp
  then have "\<exists>n\<le>length (drop ?i docText). squeeze (take n (drop ?i docText)) = squeeze (trim snippet)"
    by (rule exI)
  with i show ?thesis unfolding wsMatchAt_iff by (rule conjI)
qed

text \<open>
  C4, for white space that is changed run for run. Let the snippet have a character
  other than white space and be a fragment of the document up to its runs of white
  space, each run of the one standing for a run of the other, and up to white space at
  its two ends (the fragment itself, taken verbatim, is the case of no change). Then the
  resolver returns a position: the one of the least offset at which the document has a
  white-space-tolerant match of the trimmed snippet, which is not after the fragment, and
  whose line is the number of line feeds before that offset.
\<close>

theorem C4_whitespace_tolerant_match:
  assumes "trim snippet \<noteq> []"
      and "docText = before @ fragment @ after"
      and "squeeze (trim snippet) = squeeze (trim fragment)"
  shows "\<exists>j. findPositionByCodeSnippet (Some snippet) docText = Some (positionAt docText j) \<and>
             wsMatchAt snippet docText j \<and>
             (\<forall>k<j. \<not> wsMatchAt snippet docText k) \<and>
             j \<le> length before + length (takeWhile isWhiteSpace fragment) \<and>
             line (positionAt docText j) = length (filter (\<lambda>c. c = 10) (take j docText))"
proof -
  from assms(1) have ne: "snippet \<noteq> []"
    by (auto simp: trim_def trimStart_def trimEnd_def)
  from assms(2,3) have "wsMatchAt snippet docText
      (length before + length (takeWhile isWhiteSpace fragment))"
    by (rule fragment_wsMatchAt)
  from regexPass_first_match [OF this] obtain j where
    i: "j \<le> length before + length (takeWhile isWhiteSpace fragment)" and
    r: "regexPass (escapeSnippet snippet) docText = Inr (Some j)" and
    a: "wsMatchAt snippet docText j" and b: "\<forall>k<j. \<not> wsMatchAt snippet docText k"
    by blast
  have f: "findPositionByCodeSnippet (Some snippet) docText = Some (positionAt docText j)"
    using ne r by (simp add: findPositionByCodeSnippet_def)
  have l: "line (positionAt docText j) = length (filter (\<lambda>c. c = 10) (take j docText))"
    by (simp add: positionAt_def Let_def)
  from f a b i l have "findPositionByCodeSnippet (Some snippet) docText = Some (positionAt docText j) \<and>
             wsMatchAt snippet docText j \<and>
             (\<forall>k<j. \<not> wsMatchAt snippet docText k) \<and>
             j \<le> length before + length (takeWhile isWhiteSpace fragment) \<and>
             line (positionAt docText j) = length (filter (\<lambda>c. c = 10) (take j docText))"
    by (intro conjI)
  then show ?thesis by (rule exI)
qed

theorem C4_witness:
  "trim (asc ''const   x = 1'') \<noteq> [] \<and>
   squeeze (trim (asc ''const   x = 1'')) = squeeze (trim (asc ''const x = 1'')) \<and>
   findPositionByCodeSnippet (Some (asc ''const   x = 1'')) (asc ''const x = 1'') =
     Some \<lparr>line = 0, character = 0\<rparr>"
proof -
  let ?S = "asc ''const   x = 1''" and ?D = "asc ''const x = 1''"
  have h1: "trim ?S \<noteq> []"
    by (simp add: asc_def trim_def trimStart_def trimEnd_def isWhiteSpace_def)
  have h2: "squeeze (trim ?S) = squeeze (trim ?D)"
    by (simp add: asc_def trim_def trimStart_def trimEnd_def squeeze_Cons isWhiteSpace_def)
  have h3: "?D = [] @ ?D @ []" by simp
  from C4_whitespace_tolerant_match [OF h1 h3 h2] obtain j where
    f: "findPositionByCodeSnippet (Some ?S) ?D = Some (positionAt ?D j)" and
    m: "j \<le> length ([]::nat list) + length (takeWhile isWhiteSpace ?D)" by blast
  from m have "j = 0" by (simp add: asc_def isWhiteSpace_def)
  with f h1 h2 show ?thesis by (simp add: positionAt_0)
qed

lemma inserted_white_space:
  "findPositionByCodeSnippet (Some (asc ''foo( x )'')) (asc ''foo(x)'') = None"
  by (simp add: findPositionByCodeSnippet_def regexPass_escaped asc_def trim_def trimStart_def
        trimEnd_def snippetPattern.simps exec_def matchAt_def advance_def isWhiteSpace_def
        canonicalize_def)

lemma removed_white_space:
  "findPositionByCodeSnippet (Some (asc ''a=1'')) (asc ''let a = 1'') = None"
  by (simp add: findPositionByCodeSnippet_def regexPass_escaped asc_def trim_def trimStart_def
        trimEnd_def snippetPattern.simps exec_def matchAt_def advance_def isWhiteSpace_def
        canonicalize_def)

lemma white_space_only:
  "findPositionByCodeSnippet (Some [32]) (asc ''a'' @ [10] @ asc ''b c'') =
     Some \<lparr>line = 0, character = 0\<rparr>"
  by (simp add: findPositionByCodeSnippet_def regexPass_escaped trim_def trimStart_def
        trimEnd_def snippetPattern.simps exec_Eps isWhiteSpace_def positionAt_0)

text \<open>
  White space that is put where the document has none, or left out where the document
  has some, is not tolerated: the snippet \<^verbatim>\<open>foo( x )\<close> is the fragment \<^verbatim>\<open>foo(x)\<close> up to
  white space and is not found in it, and neither is \<^verbatim>\<open>a=1\<close> in \<^verbatim>\<open>let a = 1\<close> (both are
  too short for the second pass). And a snippet of white space only is found at offset 0
  wherever it was taken from: the space of the second line of \<^verbatim>\<open>a\<close>, line feed, \<^verbatim>\<open>b c\<close>
  resolves to line 0, column 0, where the document has no white space.
\<close>

theorem C4_counterexample:
  "asc ''foo(x)'' = [] @ asc ''foo(x)'' @ [] \<and>
   filter (\<lambda>c. \<not> isWhiteSpace c) (asc ''foo( x )'') =
     filter (\<lambda>c. \<not> isWhiteSpace c) (asc ''foo(x)'') \<and>
   findPositionByCodeSnippet (Some (asc ''foo( x )'')) (asc ''foo(x)'') = None \<and>
   asc ''let a = 1'' = asc ''let '' @ asc ''a = 1'' @ [] \<and>
   filter (\<lambda>c. \<not> isWhiteSpace c) (asc ''a=1'') =
     filter (\<lambda>c. \<not> isWhiteSpace c) (asc ''a = 1'') \<and>
   findPositionByCodeSnippet (Some (asc ''a=1'')) (asc ''let a = 1'') = None \<and>
   asc ''a'' @ [10] @ asc ''b c'' = (asc ''a'' @ [10] @ asc ''b'') @ [32] @ asc ''c'' \<and>
   line (positionAt (asc ''a'' @ [10] @ asc ''b c'') (length (asc ''a'' @ [10] @ asc ''b''))) = 1 \<and>
   \<not> isWhiteSpace (hd (asc ''a'' @ [10] @ asc ''b c'')) \<and>
   findPositionByCodeSnippet (Some [32]) (asc ''a'' @ [10] @ asc ''b c'') =
     Some \<lparr>line = 0, character = 0\<rparr>"
  unfolding inserted_white_space removed_white_space white_space_only
  by (simp add: asc_def isWhiteSpace_def positionAt_def)

text \<open>
  C5. When the regular-expression pass throws or finds no match, the resolver returns
  what the fuzzy pass returns if the snippet is longer than 15 code units, and no
  position otherwise; it returns a value in either case: an exception of the first pass
  ends at the \<^verbatim>\<open>catch\<close>.
\<close>

theorem C5_fallback_after_regex_pass:
  assumes "(\<exists>e. regexPass (escapeSnippet snippet) docText = Inl e) \<or>
           regexPass (escapeSnippet snippet) docText = Inr None"
  shows "findPositionByCodeSnippet (Some snippet) docText =
           (if length snippet > 15 then fuzzyPass snippet docText else None)"
proof -
  from assms have "snippet \<noteq> []" using regexPass_empty [of docText] by auto
  with assms show ?thesis by (auto simp: findPositionByCodeSnippet_def)
qed

lemma fallback_example:
  "regexPass (escapeSnippet (asc ''const value = compute(x)'')) (asc ''const  value=compute( x );'')
     = Inr None"
  by (simp add: regexPass_escaped asc_def trim_def trimStart_def trimEnd_def
        snippetPattern.simps exec_def matchAt_def advance_def isWhiteSpace_def canonicalize_def)

lemma fuzzy_example:
  "fuzzyPass (asc ''const value = compute(x)'') (asc ''const  value=compute( x );'')
     = Some \<lparr>line = 0, character = 0\<rparr>"
  by (simp add: fuzzyPass_def asc_def isWhiteSpace_def indexOf_def startsWith_def substring_def
        positionAt_0)

theorem C5_witness:
  "regexPass (escapeSnippet (asc ''const value = compute(x)'')) (asc ''const  value=compute( x );'')
     = Inr None \<and>
   findPositionByCodeSnippet (Some (asc ''const value = compute(x)''))
      (asc ''const  value=compute( x );'') = Some \<lparr>line = 0, character = 0\<rparr>"
proof -
  have "15 < length (asc ''const value = compute(x)'')" by (simp add: asc_def)
  with C5_fallback_after_regex_pass [of "asc ''const value = compute(x)''"
      "asc ''const  value=compute( x );''"] fallback_example fuzzy_example
  show ?thesis by simp
qed

text \<open>
  C10. A non-empty snippet of white space only is escaped and trimmed to the empty
  pattern, which matches at offset 0 of every document: the resolver returns line 0,
  column 0.
\<close>

theorem C10_whitespace_only_snippet:
  assumes "snippet \<noteq> []" and "\<forall>c\<in>set snippet. isWhiteSpace c"
  shows "escapeSnippet snippet = [] \<and>
         regexPass (escapeSnippet snippet) docText = Inr (Some 0) \<and>
         findPositionByCodeSnippet (Some snippet) docText = Some \<lparr>line = 0, character = 0\<rparr>"
proof -
  from assms(2) have t: "trim snippet = []" by (rule trim_all_ws)
  have e: "escapeSnippet snippet = []" by (simp add: escapeSnippet_eq t wsRuns.simps)
  have r: "regexPass (escapeSnippet snippet) docText = Inr (Some 0)"
    by (simp add: regexPass_escaped t snippetPattern.simps exec_Eps)
  have "findPositionByCodeSnippet (Some snippet) docText = Some (positionAt docText 0)"
    using assms(1) r by (simp add: findPositionByCodeSnippet_def)
  with e r show ?thesis by (simp add: positionAt_0)
qed

theorem C10_witness:
  "isWhiteSpace 32 \<and> isWhiteSpace 9 \<and> isWhiteSpace 10 \<and>
   findPositionByCodeSnippet (Some [32, 9, 10]) (asc ''ab'') = Some \<lparr>line = 0, character = 0\<rparr>"
proof -
  have w: "isWhiteSpace 32" "isWhiteSpace 9" "isWhiteSpace 10"
    by (simp_all add: isWhiteSpace_def)
  then have "\<forall>c\<in>set [32, 9, 10]. isWhiteSpace c" by simp
  with C10_whitespace_only_snippet [of "[32, 9, 10]" "asc ''ab''"] w show ?thesis by simp
qed

section \<open>Severity tokens\<close>

lemma canonicalize_91: "canonicalize True 91 = canonicalize True c \<Longrightarrow> c = 91"
  by (auto simp: canonicalize_def split: if_splits)

lemma canonicalize_93: "canonicalize True 93 = canonicalize True c \<Longrightarrow> c = 93"
  by (auto simp: canonicalize_def split: if_splits)

lemma toUpperCase_canonicalize: "toUpperCase s = map (canonicalize True) s"
  by (simp add: toUpperCase_def canonicalize_def)

lemma rmatch_Seq_mem:
  "st'' \<in> set (rmatch ci (Seq a b) st) \<longleftrightarrow> (\<exists>st'\<in>set (rmatch ci a st). st'' \<in> set (rmatch ci b st'))"
  by auto

lemma rmatch_Chr_mem:
  "\<exists>c. rest st = c # rest st' \<and> inCset ci cs c"
  if "st' \<in> set (rmatch ci (Chr cs) st)"
proof (cases "rest st")
  case Nil
  with that show ?thesis by simp
next
  case (Cons c r)
  with that have "inCset ci cs c" and "st' = advance st 1" by (auto split: if_splits)
  with Cons show ?thesis by (simp add: advance_def)
qed

lemma rmatch_lits_mem:
  "st' \<in> set (rmatch ci (lits w) st) \<Longrightarrow>
     \<exists>tok. rest st = tok @ rest st' \<and> map (canonicalize ci) tok = map (canonicalize ci) w"
proof (induction w arbitrary: st)
  case Nil
  then show ?case by simp
next
  case (Cons a w)
  from Cons.prems obtain st1 where s1: "st1 \<in> set (rmatch ci (Chr (Lit a)) st)"
    and s2: "st' \<in> set (rmatch ci (lits w) st1)"
    unfolding lits.simps rmatch_Seq_mem by blast
  from rmatch_Chr_mem [OF s1] obtain c where c: "rest st = c # rest st1" "inCset ci (Lit a) c"
    by blast
  from Cons.IH [OF s2] obtain tok where t: "rest st1 = tok @ rest st'"
    "map (canonicalize ci) tok = map (canonicalize ci) w" by blast
  from c t have "rest st = (c # tok) @ rest st' \<and>
      map (canonicalize ci) (c # tok) = map (canonicalize ci) (a # w)" by simp
  then show ?case by blast
qed

lemma token_upper: "w \<in> set severityTokens \<Longrightarrow> map (canonicalize True) w = w"
  by (auto simp: severityTokens_def asc_def canonicalize_def)

lemma token_no_bracket: "w \<in> set severityTokens \<Longrightarrow> 93 \<notin> set w"
  by (auto simp: severityTokens_def asc_def)

lemma rmatch_tokens_mem:
  assumes "st' \<in> set (rmatch True (Grp 1 (alts (map lits severityTokens))) st)"
  shows "\<exists>tok. rest st = tok @ rest st' \<and> toUpperCase tok \<in> set severityTokens"
proof -
  from assms obtain st0 where r: "rest st' = rest st0"
    and m: "st0 \<in> set (rmatch True (alts (map lits severityTokens)) st)"
    by auto
  from m obtain w where w: "w \<in> set severityTokens" and l: "st0 \<in> set (rmatch True (lits w) st)"
    unfolding severityTokens_def by auto
  from rmatch_lits_mem [OF l] obtain tok where "rest st = tok @ rest st0"
    "map (canonicalize True) tok = map (canonicalize True) w" by blast
  with w r have "rest st = tok @ rest st' \<and> toUpperCase tok \<in> set severityTokens"
    by (simp add: toUpperCase_canonicalize token_upper)
  then show ?thesis by blast
qed

lemma severityRegex_shape:
  "severityRegex =
     Seq Bol (Seq (Chr (Lit 91)) (Seq (Grp 1 (alts (map lits severityTokens)))
       (Seq (Chr (Lit 93)) (seqs (drop 4 [Bol, Chr (Lit 91),
           Grp 1 (alts [lits (asc ''ERROR''), lits (asc ''WARNING''),
                        lits (asc ''INFO''), lits (asc ''HINT'')]),
           Chr (Lit 93), Rep True 0 Space, Opt (Chr (Lit 58)), Rep True 0 Space,
           Grp 2 (Rep False 1 AnyChar),
           Opt (seqs [Rep True 1 Space, lits (asc ''[Ln''), Rep True 1 Space,
                      Grp 3 (Rep True 1 Digit),
                      Opt (seqs [Chr (Lit 44), Rep True 0 Space, lits (asc ''Col''),
                                 Rep True 1 Space, Grp 4 (Rep True 1 Digit)]),
                      Chr (Lit 93)]),
           Eol])))))"
  by (simp add: severityRegex_def severityTokens_def)

lemma token_of_tagged:
  assumes "toUpperCase tok \<in> set severityTokens"
  shows "severityTokenOf (91 # tok @ 93 # tail) = Some tok"
proof -
  have "93 \<notin> set tok"
  proof
    assume "93 \<in> set tok"
    then have "canonicalize True 93 \<in> set (map (canonicalize True) tok)" by auto
    then have "93 \<in> set (toUpperCase tok)"
      by (simp add: toUpperCase_canonicalize canonicalize_def)
    with token_no_bracket [OF assms] show False by simp
  qed
  then have "takeWhile (\<lambda>x. x \<noteq> 93) (tok @ 93 # tail) = tok"
    by (auto simp: takeWhile_tail)
  then show ?thesis by (simp add: severityTokenOf_def)
qed

lemma severityRegex_tagged:
  assumes "rmatch True severityRegex st \<noteq> []"
  shows "pos st = 0 \<and> (\<exists>tok tail. rest st = 91 # tok @ 93 # tail \<and>
           toUpperCase tok \<in> set severityTokens)"
proof -
  let ?A = "Grp 1 (alts (map lits severityTokens))"
  obtain R where shape: "severityRegex = Seq Bol (Seq (Chr (Lit 91)) (Seq ?A (Seq (Chr (Lit 93)) R)))"
    using severityRegex_shape by blast
  from assms obtain st1 where a1: "st1 \<in> set (rmatch True Bol st)"
    and b1: "rmatch True (Seq (Chr (Lit 91)) (Seq ?A (Seq (Chr (Lit 93)) R))) st1 \<noteq> []"
    unfolding shape rmatch_Seq_nonempty by blast
  from a1 have p: "pos st = 0" and s1: "st1 = st" by (auto split: if_splits)
  from b1 obtain st2 where a2: "st2 \<in> set (rmatch True (Chr (Lit 91)) st1)"
    and b2: "rmatch True (Seq ?A (Seq (Chr (Lit 93)) R)) st2 \<noteq> []"
    unfolding rmatch_Seq_nonempty by blast
  from rmatch_Chr_mem [OF a2] obtain c where c: "rest st1 = c # rest st2" "inCset True (Lit 91) c"
    by blast
  from c(2) have c91: "c = 91" by (simp add: canonicalize_91)
  from b2 obtain st3 where a3: "st3 \<in> set (rmatch True ?A st2)"
    and b3: "rmatch True (Seq (Chr (Lit 93)) R) st3 \<noteq> []"
    unfolding rmatch_Seq_nonempty by blast
  from rmatch_tokens_mem [OF a3] obtain tok where t: "rest st2 = tok @ rest st3"
    "toUpperCase tok \<in> set severityTokens" by blast
  from b3 obtain st4 where a4: "st4 \<in> set (rmatch True (Chr (Lit 93)) st3)"
    unfolding rmatch_Seq_nonempty by blast
  from rmatch_Chr_mem [OF a4] obtain d where d: "rest st3 = d # rest st4" "inCset True (Lit 93) d"
    by blast
  from d(2) have d93: "d = 93" by (simp add: canonicalize_93)
  from c(1) c91 t(1) d(1) d93 s1 have "rest st = 91 # tok @ 93 # rest st4" by simp
  with p t(2) show ?thesis by blast
qed

lemma finding_needs_token:
  assumes "findingOfLine ln \<noteq> None"
  shows "\<exists>tok. severityTokenOf ln = Some tok \<and> toUpperCase tok \<in> set severityTokens"
proof -
  from assms have "execFrom True severityRegex 0 ln \<noteq> None"
    by (auto simp: findingOfLine_def exec_def split: option.splits)
  then obtain m where "execFrom True severityRegex 0 ln = Some m" by blast
  from execFrom_Some [OF this] obtain j where
    j: "matchAt True severityRegex (0 + j) (drop j ln) = Some m" by blast
  let ?st = "\<lparr>pos = 0 + j, rest = drop j ln, caps = Map.empty\<rparr>"
  from j have "matchAt True severityRegex (0 + j) (drop j ln) \<noteq> None" by simp
  then have "rmatch True severityRegex ?st \<noteq> []" unfolding matchAt_None .
  from severityRegex_tagged [OF this] obtain tok tail where
    "pos ?st = 0" "rest ?st = 91 # tok @ 93 # tail" "toUpperCase tok \<in> set severityTokens"
    by blast
  then have "ln = 91 # tok @ 93 # tail" and u: "toUpperCase tok \<in> set severityTokens"
    by simp_all
  with token_of_tagged [OF u, of tail] show ?thesis by blast
qed

section \<open>The structured path\<close>

lemma matchAt_think:
  "s = [] \<or> hd s \<noteq> 60 \<Longrightarrow> matchAt False thinkRegex i s = None"
  by (cases s) (simp_all add: matchAt_def thinkRegex_def asc_def canonicalize_def)

lemma think_unchanged: "60 \<notin> set s \<Longrightarrow> replaceAllFrom False thinkRegex f i s = s"
  by (induction s arbitrary: i) (simp_all add: matchAt_think)

lemma splitOn_plain: "d \<notin> set l \<Longrightarrow> splitOn d l = [l]"
  by (induction l) auto

lemma splitOn_append: "d \<notin> set l \<Longrightarrow> splitOn d (l @ d # r) = l # splitOn d r"
  by (induction l) auto

lemma splitOn_joinWith:
  "ls \<noteq> [] \<Longrightarrow> \<forall>l\<in>set ls. d \<notin> set l \<Longrightarrow> splitOn d (joinWith d ls) = ls"
  by (induction d ls rule: joinWith.induct) (simp_all add: splitOn_plain splitOn_append)

lemma set_joinWith: "c \<in> set (joinWith d ls) \<Longrightarrow> c = d \<or> (\<exists>l\<in>set ls. c \<in> set l)"
  by (induction d ls rule: joinWith.induct) auto

lemma trimEnd_keep: "\<not> isWhiteSpace c \<Longrightarrow> trimEnd (a @ c # b) = a @ c # trimEnd b"
  by (simp add: trimEnd_def dropWhile_append)

lemma bracket_not_ws: "\<not> isWhiteSpace 91" "\<not> isWhiteSpace 93"
  by (simp_all add: isWhiteSpace_def)

lemma trim_tagged: "trim (91 # sev @ 93 # r) = 91 # sev @ 93 # trimEnd r"
proof -
  have "trimEnd ((91 # sev) @ 93 # r) = (91 # sev) @ 93 # trimEnd r"
    using bracket_not_ws(2) by (rule trimEnd_keep)
  then show ?thesis by (simp add: trim_def trimStart_def bracket_not_ws)
qed

lemma matchAt_bullet_later: "i \<noteq> 0 \<Longrightarrow> matchAt False bulletRegex i s = None"
  by (simp add: matchAt_def bulletRegex_def)

lemma matchAt_bullet_bracket: "matchAt False bulletRegex 0 (91 # x) = None"
  by (simp add: matchAt_def bulletRegex_def canonicalize_def isWhiteSpace_def)

lemma bullet_unchanged: "replaceFirst False bulletRegex f (91 # x) = 91 # x"
proof -
  have "\<forall>j\<le>length (91 # x). matchAt False bulletRegex (0 + j) (drop j (91 # x)) = None"
  proof (intro allI impI)
    fix j assume "j \<le> length (91 # x)"
    show "matchAt False bulletRegex (0 + j) (drop j (91 # x)) = None"
      by (cases j) (simp_all add: matchAt_bullet_bracket matchAt_bullet_later)
  qed
  then have "execFrom False bulletRegex 0 (91 # x) = None" unfolding execFrom_None .
  then show ?thesis by (simp add: replaceFirst_def exec_def)
qed

lemma formatReview_tagged:
  "\<exists>loc. formatReview docText e = 91 # entrySeverity e @ 93 # message e @ loc \<and>
         10 \<notin> set loc \<and> 60 \<notin> set loc"
proof (cases "findPositionByCodeSnippet (codeSnippet e) docText")
  case None
  then have "formatReview docText e = 91 # entrySeverity e @ 93 # message e @ []"
    by (simp add: formatReview_def)
  then show ?thesis by (metis empty_iff list.set(1))
next
  case (Some p)
  let ?loc = "asc '' [Ln '' @ numToString (jsAdd (ofNat (line p)) (Num 1)) @ asc '', Col '' @
                 numToString (ofNat (character p)) @ asc '']''"
  have "formatReview docText e = 91 # entrySeverity e @ 93 # message e @ ?loc"
    using Some by (simp add: formatReview_def)
  moreover have "10 \<notin> set ?loc" "60 \<notin> set ?loc"
    using numToString_plain [of 10] numToString_plain [of 60] by (auto simp: asc_def)
  ultimately show ?thesis by blast
qed

lemma unknown_line_dropped:
  assumes "93 \<notin> set sev" and "toUpperCase sev \<notin> set severityTokens"
  shows "findingOfLine
           (trim (replaceFirst False bulletRegex f (trim (91 # sev @ 93 # r)))) = None"
proof -
  let ?l = "91 # sev @ 93 # trimEnd (trimEnd r)"
  have l: "trim (replaceFirst False bulletRegex f (trim (91 # sev @ 93 # r))) = ?l"
    by (simp add: trim_tagged bullet_unchanged)
  from assms(1) have "takeWhile (\<lambda>x. x \<noteq> 93) (sev @ 93 # trimEnd (trimEnd r)) = sev"
    by (auto simp: takeWhile_tail)
  then have t: "severityTokenOf ?l = Some sev" by (simp add: severityTokenOf_def)
  show ?thesis
  proof (rule ccontr)
    assume "findingOfLine
           (trim (replaceFirst False bulletRegex f (trim (91 # sev @ 93 # r)))) \<noteq> None"
    then have "findingOfLine ?l \<noteq> None" unfolding l .
    from finding_needs_token [OF this] t have "toUpperCase sev \<in> set severityTokens" by auto
    with assms(2) show False by contradiction
  qed
qed

lemma reviewLines_empty: "reviewLines [] = []"
  by (simp add: line_defs rx_defs str_defs)

lemma matchedFindings_empty: "matchedFindings [] = []"
  by (simp add: matchedFindings_def reviewLines_empty)

lemma parse_matched:
  "matchedFindings text = matchedFindings text' \<Longrightarrow>
   parseReviewItems text uri = parseReviewItems text' uri"
  by (simp add: parseReviewItems_def collect_firsts)

lemma reviewLines_join:
  assumes "ls \<noteq> []" and "\<forall>l\<in>set ls. 10 \<notin> set l \<and> 60 \<notin> set l"
  shows "reviewLines (joinWith 10 ls) =
           map (\<lambda>line. trim (replaceFirst False bulletRegex (\<lambda>_. []) line))
             (filter keepLine (map trim ls))"
proof -
  have "60 \<notin> set (joinWith 10 ls)"
  proof
    assume "60 \<in> set (joinWith 10 ls)"
    from set_joinWith [OF this] assms(2) show False by auto
  qed
  then have think: "replaceAll False thinkRegex (\<lambda>_. []) (joinWith 10 ls) = joinWith 10 ls"
    by (simp add: replaceAll_def think_unchanged)
  have split: "splitOn 10 (joinWith 10 ls) = ls"
    using assms by (intro splitOn_joinWith) auto
  show ?thesis unfolding reviewLines_def think split ..
qed

lemma map_filter_lines:
  "List.map_filter f (map g (filter P (map h ls))) =
     List.map_filter (\<lambda>l. if P (h l) then f (g (h l)) else None) ls"
  by (induction ls) (auto split: option.splits)

lemma map_filter_mapped: "List.map_filter f (map g xs) = List.map_filter (\<lambda>x. f (g x)) xs"
  by (induction xs) (auto split: option.splits)

lemma matchedFindings_join:
  assumes "\<forall>l\<in>set ls. 10 \<notin> set l \<and> 60 \<notin> set l"
  shows "matchedFindings (joinWith 10 ls) =
           List.map_filter
             (\<lambda>l. if keepLine (trim l)
                  then findingOfLine (trim (replaceFirst False bulletRegex (\<lambda>_. []) (trim l)))
                  else None) ls"
proof (cases "ls = []")
  case True
  then show ?thesis by (simp add: matchedFindings_empty)
next
  case False
  from reviewLines_join [OF False assms] show ?thesis
    by (simp add: matchedFindings_def map_filter_lines)
qed

lemma map_filter_known:
  "\<forall>x\<in>set xs. \<not> P x \<longrightarrow> f x = None \<Longrightarrow>
   List.map_filter f xs = List.map_filter f (filter P xs)"
  by (induction xs) (auto split: option.splits)

lemma formatted_plain:
  assumes "plainEntry e"
  shows "10 \<notin> set (formatReview docText e) \<and> 60 \<notin> set (formatReview docText e)"
proof -
  from formatReview_tagged [of docText e] obtain loc where
    "formatReview docText e = 91 # entrySeverity e @ 93 # message e @ loc"
    "10 \<notin> set loc" "60 \<notin> set loc" by blast
  with assms show ?thesis by (auto simp: plainEntry_def)
qed

lemma unknown_entry_dropped:
  assumes "plainEntry e" and "toUpperCase (entrySeverity e) \<notin> set severityTokens"
  shows "findingOfLine
           (trim (replaceFirst False bulletRegex f (trim (formatReview docText e)))) = None"
proof -
  from formatReview_tagged [of docText e] obtain loc where
    f: "formatReview docText e = 91 # entrySeverity e @ 93 # message e @ loc" by blast
  from assms(1) have "93 \<notin> set (entrySeverity e)" by (simp add: plainEntry_def)
  then show ?thesis unfolding f using assms(2) by (rule unknown_line_dropped)
qed

lemma known_entries_only:
  assumes "\<forall>e\<in>set es. plainEntry e"
  shows "matchedFindings (formatFunctionCallResults (Some es) docText) =
         matchedFindings (formatFunctionCallResults
           (Some (filter (\<lambda>e. toUpperCase (entrySeverity e) \<in> set severityTokens) es)) docText)"
proof -
  let ?known = "\<lambda>e. toUpperCase (entrySeverity e) \<in> set severityTokens"
  let ?g = "\<lambda>l. if keepLine (trim l)
                  then findingOfLine (trim (replaceFirst False bulletRegex (\<lambda>_. []) (trim l)))
                  else None"
  let ?F = "formatReview docText"
  have plain: "\<forall>l\<in>set (map ?F xs). 10 \<notin> set l \<and> 60 \<notin> set l" if "set xs \<subseteq> set es" for xs
    using that assms formatted_plain by auto
  have m: "matchedFindings (formatFunctionCallResults (Some xs) docText) =
             List.map_filter (\<lambda>e. ?g (?F e)) xs" if "set xs \<subseteq> set es" for xs
    using matchedFindings_join [OF plain [OF that]]
    by (simp add: formatFunctionCallResults_def map_filter_mapped)
  have "\<forall>e\<in>set es. \<not> ?known e \<longrightarrow> ?g (?F e) = None"
    using assms by (auto simp: unknown_entry_dropped)
  then have "List.map_filter (\<lambda>e. ?g (?F e)) es =
             List.map_filter (\<lambda>e. ?g (?F e)) (filter ?known es)"
    by (rule map_filter_known)
  then show ?thesis using m [of es] m [of "filter ?known es"] by simp
qed

lemma format_no_entries: "formatFunctionCallResults (Some []) docText = []"
  by (simp add: formatFunctionCallResults_def)

lemma parse_empty: "parseReviewItems [] uri = []"
  by (simp add: parseReviewItems_def collect_firsts matchedFindings_empty sortBy_def)

lemma token_of_formatted:
  assumes "93 \<notin> set (entrySeverity e)"
  shows "severityTokenOf (formatReview docText e) = Some (entrySeverity e)"
proof -
  from formatReview_tagged [of docText e] obtain loc where
    f: "formatReview docText e = 91 # entrySeverity e @ 93 # message e @ loc" by blast
  from assms have "takeWhile (\<lambda>x. x \<noteq> 93) (entrySeverity e @ 93 # message e @ loc) =
      entrySeverity e"
    by (auto simp: takeWhile_tail)
  then show ?thesis unfolding f by (simp add: severityTokenOf_def)
qed

lemma item_needs_token:
  assumes "i \<in> set (parseReviewItems text uri)"
  shows "\<exists>l tok. l \<in> set (reviewLines text) \<and> severityTokenOf l = Some tok \<and>
           toUpperCase tok \<in> set severityTokens \<and> findingOfLine l = Some (findingOfItem i)"
proof -
  from assms have "i \<in> set (collectReviewItems text uri)"
    by (simp add: parseReviewItems_def set_sortBy)
  then obtain f where i: "i = itemOfFinding uri f"
    and "f \<in> set (firstOccurrences reviewKey (matchedFindings text))"
    unfolding collect_firsts by auto
  with set_firstOccurrences [of reviewKey "matchedFindings text"]
  have "f \<in> set (matchedFindings text)" by blast
  then obtain l where l: "l \<in> set (reviewLines text)" "findingOfLine l = Some f"
    unfolding matchedFindings_def by (auto simp: List.map_filter_def)
  from l(2) have "findingOfLine l \<noteq> None" by simp
  from finding_needs_token [OF this] obtain tok where
    "severityTokenOf l = Some tok" "toUpperCase tok \<in> set severityTokens" by blast
  with l i show ?thesis by (auto simp: findingOfItem_itemOfFinding)
qed

text \<open>
  C6, with the structured path as the code has it. A line whose severity token is
  missing or is not, up to the case of its letters, one of ERROR, WARNING, INFO and HINT
  gives no finding, so that every item of a result comes from a line with one of these
  tokens (a line as the loop reads it: trimmed, and without its bullet). The structured
  path does the same. The severity token of a formatted
  entry is the severity of the entry, and the formatted text goes through the same
  parser. So, in a payload whose entries are each formatted on one line (whose severities
  have no closing bracket, and whose severities and messages have no line feed and no
  \<^verbatim>\<open><\<close>), the entries with a severity outside the enumeration give no item: the items
  are those of the payload without these entries, and none at all if every entry is such.
\<close>

theorem C6_unknown_severity_dropped:
  "(\<forall>ln. (\<forall>tok. severityTokenOf ln = Some tok \<longrightarrow> toUpperCase tok \<notin> set severityTokens) \<longrightarrow>
      findingOfLine ln = None) \<and>
   (\<forall>text uri i. i \<in> set (parseReviewItems text uri) \<longrightarrow>
      (\<exists>l tok. l \<in> set (reviewLines text) \<and> severityTokenOf l = Some tok \<and>
         toUpperCase tok \<in> set severityTokens \<and> findingOfLine l = Some (findingOfItem i))) \<and>
   (\<forall>e docText. 93 \<notin> set (entrySeverity e) \<longrightarrow>
      severityTokenOf (formatReview docText e) = Some (entrySeverity e)) \<and>
   (\<forall>es docText uri.
      (\<forall>e\<in>set es. plainEntry e) \<longrightarrow>
      parseReviewItems (formatFunctionCallResults (Some es) docText) uri =
      parseReviewItems
        (formatFunctionCallResults
           (Some (filter (\<lambda>e. toUpperCase (entrySeverity e) \<in> set severityTokens) es)) docText)
        uri) \<and>
   (\<forall>es docText uri.
      (\<forall>e\<in>set es. plainEntry e \<and> toUpperCase (entrySeverity e) \<notin> set severityTokens) \<longrightarrow>
      parseReviewItems (formatFunctionCallResults (Some es) docText) uri = [])"
proof (intro conjI allI impI)
  fix ln
  assume a: "\<forall>tok. severityTokenOf ln = Some tok \<longrightarrow> toUpperCase tok \<notin> set severityTokens"
  show "findingOfLine ln = None"
  proof (rule ccontr)
    assume "findingOfLine ln \<noteq> None"
    from finding_needs_token [OF this] a show False by blast
  qed
next
  fix t uri :: jsstring and i :: ReviewItem
  assume "i \<in> set (parseReviewItems t uri)"
  then show "\<exists>l tok. l \<in> set (reviewLines t) \<and> severityTokenOf l = Some tok \<and>
         toUpperCase tok \<in> set severityTokens \<and> findingOfLine l = Some (findingOfItem i)"
    by (rule item_needs_token)
next
  fix e :: reviewEntry and docText :: jsstring
  assume "93 \<notin> set (entrySeverity e)"
  then show "severityTokenOf (formatReview docText e) = Some (entrySeverity e)"
    by (rule token_of_formatted)
next
  fix es :: "reviewEntry list" and docText uri :: jsstring
  assume "\<forall>e\<in>set es. plainEntry e"
  then have "matchedFindings (formatFunctionCallResults (Some es) docText) =
         matchedFindings (formatFunctionCallResults
           (Some (filter (\<lambda>e. toUpperCase (entrySeverity e) \<in> set severityTokens) es)) docText)"
    by (rule known_entries_only)
  then show "parseReviewItems (formatFunctionCallResults (Some es) docText) uri =
      parseReviewItems
        (formatFunctionCallResults
           (Some (filter (\<lambda>e. toUpperCase (entrySeverity e) \<in> set severityTokens) es)) docText)
        uri"
    by (rule parse_matched)
next
  fix es :: "reviewEntry list" and docText uri :: jsstring
  assume a: "\<forall>e\<in>set es. plainEntry e \<and> toUpperCase (entrySeverity e) \<notin> set severityTokens"
  then have "\<forall>e\<in>set es. plainEntry e" by blast
  then have "matchedFindings (formatFunctionCallResults (Some es) docText) =
         matchedFindings (formatFunctionCallResults
           (Some (filter (\<lambda>e. toUpperCase (entrySeverity e) \<in> set severityTokens) es)) docText)"
    by (rule known_entries_only)
  moreover from a have "filter (\<lambda>e. toUpperCase (entrySeverity e) \<in> set severityTokens) es = []"
    by (simp add: filter_empty_conv)
  ultimately have "matchedFindings (formatFunctionCallResults (Some es) docText) =
      matchedFindings []"
    by (simp add: format_no_entries)
  then have "parseReviewItems (formatFunctionCallResults (Some es) docText) uri =
      parseReviewItems [] uri"
    by (rule parse_matched)
  then show "parseReviewItems (formatFunctionCallResults (Some es) docText) uri = []"
    by (simp add: parse_empty)
qed

lemma error_text:
  "formatFunctionCallResults
     (Some [\<lparr>entrySeverity = asc ''ERROR'', message = asc ''y'', codeSnippet = None\<rparr>]) docText =
   asc ''[ERROR]y''"
  by (simp add: formatFunctionCallResults_def formatReview_def findPositionByCodeSnippet_def
        asc_def)

lemma error_lines: "reviewLines (asc ''[ERROR]y'') = [asc ''[ERROR]y'']"
  by (simp add: line_defs rx_defs str_defs)

lemma error_finding:
  "findingOfLine (asc ''[ERROR]y'') =
     Some \<lparr>fSeverity = Error, content = asc ''y'', fLine = None, fCol = None\<rparr>"
  by (simp add: findingOfLine_def severityRegex_def rx_defs str_defs severityOfText_def)

lemma error_items:
  "parseReviewItems (asc ''[ERROR]y'') uri =
     [itemOfFinding uri \<lparr>fSeverity = Error, content = asc ''y'', fLine = None, fCol = None\<rparr>]"
  unfolding parseReviewItems_def collectReviewItems_def error_lines
  by (simp add: reviewStep_def error_finding sortBy_def)

theorem C6_witness:
  "severityTokenOf (asc ''[CRITICAL] x'') = Some (asc ''CRITICAL'') \<and>
   toUpperCase (asc ''CRITICAL'') \<notin> set severityTokens \<and>
   findingOfLine (asc ''[CRITICAL] x'') = None \<and>
   plainEntry \<lparr>entrySeverity = asc ''CRITICAL'', message = asc ''m'', codeSnippet = None\<rparr> \<and>
   plainEntry \<lparr>entrySeverity = asc ''ERROR'', message = asc ''y'', codeSnippet = None\<rparr> \<and>
   parseReviewItems
     (formatFunctionCallResults
        (Some [\<lparr>entrySeverity = asc ''CRITICAL'', message = asc ''m'', codeSnippet = None\<rparr>])
        (asc ''x = 1''))
     (asc ''u'') = [] \<and>
   parseReviewItems
     (formatFunctionCallResults
        (Some [\<lparr>entrySeverity = asc ''CRITICAL'', message = asc ''m'', codeSnippet = None\<rparr>,
               \<lparr>entrySeverity = asc ''ERROR'', message = asc ''y'', codeSnippet = None\<rparr>])
        (asc ''x = 1''))
     (asc ''u'') =
     [itemOfFinding (asc ''u'')
        \<lparr>fSeverity = Error, content = asc ''y'', fLine = None, fCol = None\<rparr>] \<and>
   itemOfFinding (asc ''u'')
     \<lparr>fSeverity = Error, content = asc ''y'', fLine = None, fCol = None\<rparr>
     \<in> set (parseReviewItems (asc ''[ERROR]y'') (asc ''u'')) \<and>
   (\<exists>tok. severityTokenOf (asc ''[ERROR]y'') = Some tok \<and>
      toUpperCase tok \<in> set severityTokens)"
proof -
  let ?c = "\<lparr>entrySeverity = asc ''CRITICAL'', message = asc ''m'', codeSnippet = None\<rparr>"
  let ?e = "\<lparr>entrySeverity = asc ''ERROR'', message = asc ''y'', codeSnippet = None\<rparr>"
  have t: "severityTokenOf (asc ''[CRITICAL] x'') = Some (asc ''CRITICAL'')"
    by (simp add: severityTokenOf_def asc_def)
  have u: "toUpperCase (asc ''CRITICAL'') \<notin> set severityTokens"
    by (simp add: toUpperCase_def severityTokens_def asc_def)
  have k: "toUpperCase (asc ''ERROR'') \<in> set severityTokens"
    by (simp add: toUpperCase_def severityTokens_def asc_def)
  have p: "plainEntry ?c" "plainEntry ?e" by (simp_all add: plainEntry_def asc_def)
  from t u have "\<forall>tok. severityTokenOf (asc ''[CRITICAL] x'') = Some tok \<longrightarrow>
      toUpperCase tok \<notin> set severityTokens" by simp
  with C6_unknown_severity_dropped have f: "findingOfLine (asc ''[CRITICAL] x'') = None"
    by blast
  from p u have "\<forall>e\<in>set [?c]. plainEntry e \<and> toUpperCase (entrySeverity e) \<notin> set severityTokens"
    by simp
  with C6_unknown_severity_dropped have one:
    "parseReviewItems (formatFunctionCallResults (Some [?c]) (asc ''x = 1'')) (asc ''u'') = []"
    by blast
  from p have "\<forall>e\<in>set [?c, ?e]. plainEntry e" by simp
  with C6_unknown_severity_dropped have
    "parseReviewItems (formatFunctionCallResults (Some [?c, ?e]) (asc ''x = 1'')) (asc ''u'') =
     parseReviewItems
       (formatFunctionCallResults
          (Some (filter (\<lambda>e. toUpperCase (entrySeverity e) \<in> set severityTokens) [?c, ?e]))
          (asc ''x = 1'')) (asc ''u'')"
    by blast
  also have "filter (\<lambda>e. toUpperCase (entrySeverity e) \<in> set severityTokens) [?c, ?e] = [?e]"
    using u k by simp
  finally have two:
    "parseReviewItems (formatFunctionCallResults (Some [?c, ?e]) (asc ''x = 1'')) (asc ''u'') =
     [itemOfFinding (asc ''u'')
        \<lparr>fSeverity = Error, content = asc ''y'', fLine = None, fCol = None\<rparr>]"
    unfolding error_text error_items .
  let ?i = "itemOfFinding (asc ''u'')
     \<lparr>fSeverity = Error, content = asc ''y'', fLine = None, fCol = None\<rparr>"
  have mem: "?i \<in> set (parseReviewItems (asc ''[ERROR]y'') (asc ''u''))"
    unfolding error_items by simp
  with C6_unknown_severity_dropped obtain l tok where
    l: "l \<in> set (reviewLines (asc ''[ERROR]y''))" and
    k': "severityTokenOf l = Some tok" "toUpperCase tok \<in> set severityTokens"
    by blast
  from l have "l = asc ''[ERROR]y''" unfolding error_lines by simp
  with k' have tokd: "\<exists>tok. severityTokenOf (asc ''[ERROR]y'') = Some tok \<and>
      toUpperCase tok \<in> set severityTokens" by blast
  from t u f p one two mem tokd show ?thesis by blast
qed

lemma critical_text:
  "formatFunctionCallResults
     (Some [\<lparr>entrySeverity = asc ''CRITICAL'', message = asc ''m'', codeSnippet = None\<rparr>]) [] =
   asc ''[CRITICAL]m''"
  by (simp add: formatFunctionCallResults_def formatReview_def findPositionByCodeSnippet_def
        asc_def)

lemma critical_lines: "reviewLines (asc ''[CRITICAL]m'') = [asc ''[CRITICAL]m'']"
  by (simp add: line_defs rx_defs str_defs)

lemma critical_finding: "findingOfLine (asc ''[CRITICAL]m'') = None"
  by (simp add: findingOfLine_def severityRegex_def rx_defs str_defs)

text \<open>The structured payload with the one entry \<^verbatim>\<open>{severity: "CRITICAL", message: "m"}\<close>
  gives no item: the entry is dropped, not shown with severity Info.\<close>

theorem C6_counterexample:
  "toUpperCase (asc ''CRITICAL'') \<notin> set severityTokens \<and>
   parseReviewItems
     (formatFunctionCallResults
        (Some [\<lparr>entrySeverity = asc ''CRITICAL'', message = asc ''m'', codeSnippet = None\<rparr>]) [])
     (asc ''u'') = []"
proof
  show "toUpperCase (asc ''CRITICAL'') \<notin> set severityTokens"
    by (simp add: toUpperCase_def severityTokens_def asc_def)
  show "parseReviewItems
     (formatFunctionCallResults
        (Some [\<lparr>entrySeverity = asc ''CRITICAL'', message = asc ''m'', codeSnippet = None\<rparr>]) [])
     (asc ''u'') = []"
    unfolding critical_text parseReviewItems_def collectReviewItems_def critical_lines
    by (simp add: reviewStep_def critical_finding sortBy_def)
qed

text \<open>
  An entry that is not formatted on one line is read as the lines it makes. The entry
  \<^verbatim>\<open>{severity: "CRITICAL", message: "x\n[ERROR] y"}\<close> gives the item of its second line,
  and the entry with the severity \<^verbatim>\<open>ERROR] x [FOO\<close> and the message \<^verbatim>\<open>m\<close> an item of
  severity Error.
\<close>

lemma entry_of_two_lines:
  "parseReviewItems
     (formatFunctionCallResults
        (Some [\<lparr>entrySeverity = asc ''CRITICAL'', message = asc ''x'' @ [10] @ asc ''[ERROR] y'',
                codeSnippet = None\<rparr>]) [])
     uri =
   [itemOfFinding uri \<lparr>fSeverity = Error, content = asc ''y'', fLine = None, fCol = None\<rparr>]"
proof -
  have t: "formatFunctionCallResults
     (Some [\<lparr>entrySeverity = asc ''CRITICAL'', message = asc ''x'' @ [10] @ asc ''[ERROR] y'',
                codeSnippet = None\<rparr>]) [] = asc ''[CRITICAL]x'' @ [10] @ asc ''[ERROR] y''"
    by (simp add: formatFunctionCallResults_def formatReview_def findPositionByCodeSnippet_def
          asc_def)
  have l: "reviewLines (asc ''[CRITICAL]x'' @ [10] @ asc ''[ERROR] y'') =
      [asc ''[CRITICAL]x'', asc ''[ERROR] y'']"
    by (simp add: line_defs rx_defs str_defs)
  have f: "findingOfLine (asc ''[CRITICAL]x'') = None"
    "findingOfLine (asc ''[ERROR] y'') =
       Some \<lparr>fSeverity = Error, content = asc ''y'', fLine = None, fCol = None\<rparr>"
    by (simp_all add: findingOfLine_def severityRegex_def rx_defs str_defs severityOfText_def)
  show ?thesis
    unfolding t parseReviewItems_def collectReviewItems_def l
    by (simp add: reviewStep_def f sortBy_def)
qed

lemma entry_with_bracket:
  "parseReviewItems
     (formatFunctionCallResults
        (Some [\<lparr>entrySeverity = asc ''ERROR] x [FOO'', message = asc ''m'',
                codeSnippet = None\<rparr>]) [])
     uri =
   [itemOfFinding uri
      \<lparr>fSeverity = Error, content = asc ''x [FOO]m'', fLine = None, fCol = None\<rparr>]"
proof -
  have t: "formatFunctionCallResults
     (Some [\<lparr>entrySeverity = asc ''ERROR] x [FOO'', message = asc ''m'',
                codeSnippet = None\<rparr>]) [] = asc ''[ERROR] x [FOO]m''"
    by (simp add: formatFunctionCallResults_def formatReview_def findPositionByCodeSnippet_def
          asc_def)
  have l: "reviewLines (asc ''[ERROR] x [FOO]m'') = [asc ''[ERROR] x [FOO]m'']"
    by (simp add: line_defs rx_defs str_defs)
  have f: "findingOfLine (asc ''[ERROR] x [FOO]m'') =
       Some \<lparr>fSeverity = Error, content = asc ''x [FOO]m'', fLine = None, fCol = None\<rparr>"
    by (simp add: findingOfLine_def severityRegex_def rx_defs str_defs severityOfText_def)
  show ?thesis
    unfolding t parseReviewItems_def collectReviewItems_def l
    by (simp add: reviewStep_def f sortBy_def)
qed

end
